theory Spec2Isabelle
  imports Complex_Main "HOL-Library.Char_ord" "HOL-Library.List_Lexorder"
begin

section \<open>GROMACS benchmark log parser: a shallow embedding\<close>

text \<open>
  The program is \<^verbatim>\<open>scripts/gromacs/parse_gromacs_results.py\<close>: it reads log files,
  scrapes numbers out of them with regular expressions, prints a summary and optionally
  dumps the records as JSON.

  Conventions of the embedding.
  \<^item> A Python \<^verbatim>\<open>str\<close> is a \<^typ>\<open>string\<close>; a character is a code point below 256.  In
    that range \<^verbatim>\<open>\d\<close> is exactly the ASCII digits and \<^verbatim>\<open>\s\<close> is the Unicode
    white space listed in \<open>in_class\<close>.  Text with code points from 256 on is outside
    the model.
  \<^item> A Python \<^verbatim>\<open>int\<close> is an \<^typ>\<open>int\<close> (CPython's configurable limit on the length of
    a decimal string that \<^verbatim>\<open>int()\<close> converts is not modelled).
  \<^item> A Python \<^verbatim>\<open>float\<close> is represented by the \<^emph>\<open>exact\<close> rational it stands for:
    \<^verbatim>\<open>float("12.345")\<close> is \<open>12345 / 1000\<close>, sums and quotients are exact.  The rounding
    of IEEE doubles is not modelled; every statement below about a float is a statement
    about which text is converted and which values enter a computation.
  \<^item> An exception is a value of \<open>py_error\<close>; a function that may raise returns
    \<open>py_error + 'a\<close>, with \<open>Inl\<close> the exception.
  \<^item> \<^verbatim>\<open>print\<close> appends one string (the text without the final line break) to a list.
\<close>

subsection \<open>Regular expressions as \<^verbatim>\<open>re.search\<close> runs them\<close>

text \<open>
  The eight patterns of the program use literal characters, the classes \<^verbatim>\<open>\s\<close>,
  \<^verbatim>\<open>\d\<close>, \<^verbatim>\<open>[\d.]\<close> and \<^verbatim>\<open>.\<close>, the greedy quantifiers \<^verbatim>\<open>+\<close> and \<^verbatim>\<open>*\<close> on a
  single class, and capture groups around such a repetition.  \<open>Rep c n\<close> is the class
  \<open>c\<close> repeated at least \<open>n\<close> times, \<open>Cap c n\<close> the same inside a group.
\<close>

datatype cclass = Space | Digit | NumChar | AnyButNewline

datatype item = Lit char | Rep cclass nat | Cap cclass nat

type_synonym pattern = "item list"

abbreviation NL :: char where
  "NL \<equiv> CHR 0x0A"

definition is_space :: "char \<Rightarrow> bool" where
  "is_space c \<longleftrightarrow>
     c \<in> set [CHR 0x09, CHR 0x0A, CHR 0x0B, CHR 0x0C, CHR 0x0D, CHR 0x1C, CHR 0x1D,
               CHR 0x1E, CHR 0x1F, CHR 0x20, CHR 0x85, CHR 0xA0]"

definition is_digit :: "char \<Rightarrow> bool" where
  "is_digit c \<longleftrightarrow> c \<in> set ''0123456789''"

fun in_class :: "cclass \<Rightarrow> char \<Rightarrow> bool" where
  "in_class Space c = is_space c"
| "in_class Digit c = is_digit c"
| "in_class NumChar c = (is_digit c \<or> c = CHR ''.'')"
| "in_class AnyButNewline c = (c \<noteq> NL)"

text \<open>
  A greedy repetition first takes the longest run of the class and then gives characters
  back one at a time, down to its minimum, until the rest of the pattern matches:
  \<open>countdown m n\<close> lists the lengths tried, \<open>first_some\<close> keeps the first that works.
\<close>

fun first_some :: "('a \<Rightarrow> 'b option) \<Rightarrow> 'a list \<Rightarrow> 'b option" where
  "first_some f [] = None"
| "first_some f (x # xs) = (case f x of Some y \<Rightarrow> Some y | None \<Rightarrow> first_some f xs)"

fun countdown :: "nat \<Rightarrow> nat \<Rightarrow> nat list" where
  "countdown m 0 = (if m = 0 then [0] else [])"
| "countdown m (Suc n) = (if m \<le> Suc n then Suc n # countdown m n else [])"

definition run_length :: "cclass \<Rightarrow> string \<Rightarrow> nat" where
  "run_length c s = length (takeWhile (in_class c) s)"

text \<open>
  \<open>matchp p s caps\<close> matches \<open>p\<close> at the start of \<open>s\<close>; \<open>caps\<close> are the groups captured
  so far, in order.  The result is the list of all groups of the first successful way of
  matching, in the backtracking order of the \<^verbatim>\<open>re\<close> module.
\<close>

fun matchp :: "pattern \<Rightarrow> string \<Rightarrow> string list \<Rightarrow> string list option" where
  "matchp [] s caps = Some caps"
| "matchp (Lit c # p) s caps =
     (case s of [] \<Rightarrow> None | x # xs \<Rightarrow> if x = c then matchp p xs caps else None)"
| "matchp (Rep c m # p) s caps =
     first_some (\<lambda>k. matchp p (drop k s) caps) (countdown m (run_length c s))"
| "matchp (Cap c m # p) s caps =
     first_some (\<lambda>k. matchp p (drop k s) (caps @ [take k s])) (countdown m (run_length c s))"

text \<open>\<^verbatim>\<open>re.search\<close>: the start positions are tried from left to right.\<close>

fun search :: "pattern \<Rightarrow> string \<Rightarrow> string list option" where
  "search p [] = matchp p [] []"
| "search p (x # xs) =
     (case matchp p (x # xs) [] of Some caps \<Rightarrow> Some caps | None \<Rightarrow> search p xs)"

text \<open>
  What a match is, apart from any search order: \<open>matches p m caps\<close> holds when the
  text \<open>m\<close> is matched by \<open>p\<close> as a whole, with groups \<open>caps\<close>.
\<close>

inductive matches :: "pattern \<Rightarrow> string \<Rightarrow> string list \<Rightarrow> bool" where
  m_Nil: "matches [] [] []"
| m_Lit: "matches p m caps \<Longrightarrow> matches (Lit c # p) (c # m) caps"
| m_Rep: "matches p m caps \<Longrightarrow> n \<le> length w \<Longrightarrow> list_all (in_class c) w \<Longrightarrow>
          matches (Rep c n # p) (w @ m) caps"
| m_Cap: "matches p m caps \<Longrightarrow> n \<le> length w \<Longrightarrow> list_all (in_class c) w \<Longrightarrow>
          matches (Cap c n # p) (w @ m) (w # caps)"

definition leftmost_match :: "pattern \<Rightarrow> string \<Rightarrow> string list \<Rightarrow> bool" where
  \<comment> \<open>\<open>caps\<close> are the groups of a match that starts where the first match of the text starts\<close>
  "leftmost_match p s caps \<longleftrightarrow>
     (\<exists>pre m post. s = pre @ m @ post \<and> matches p m caps \<and>
        (\<forall>pre' m' post' caps'. s = pre' @ m' @ post' \<and> matches p m' caps' \<longrightarrow>
           length pre \<le> length pre'))"

definition occurs :: "pattern \<Rightarrow> string \<Rightarrow> bool" where
  \<comment> \<open>some part of the text is matched by the pattern\<close>
  "occurs p s \<longleftrightarrow> (\<exists>pre m post caps. s = pre @ m @ post \<and> matches p m caps)"

text \<open>Shapes of text, for stating where and what a pattern matches.\<close>

definition stops :: "cclass \<Rightarrow> string \<Rightarrow> bool" where
  \<comment> \<open>the text does not go on with a character of the class\<close>
  "stops c s = (case s of [] \<Rightarrow> True | x # xs \<Rightarrow> \<not> in_class c x)"

definition blank :: "string \<Rightarrow> bool" where
  \<comment> \<open>a non-empty run of white space, what \<^verbatim>\<open>\s+\<close> matches\<close>
  "blank ws \<longleftrightarrow> ws \<noteq> [] \<and> list_all is_space ws"

definition number_text :: "string \<Rightarrow> bool" where
  \<comment> \<open>a non-empty run of digits and dots, what \<^verbatim>\<open>[\d.]+\<close> matches\<close>
  "number_text num \<longleftrightarrow> num \<noteq> [] \<and> list_all (in_class NumChar) num"

definition first_at :: "pattern \<Rightarrow> string \<Rightarrow> string \<Rightarrow> bool" where
  \<comment> \<open>in the text \<open>pre @ s\<close> no match of the pattern starts inside \<open>pre\<close>\<close>
  "first_at p pre s \<longleftrightarrow>
     (\<forall>pre' m' post' caps'. pre @ s = pre' @ m' @ post' \<and> matches p m' caps' \<longrightarrow>
        length pre \<le> length pre')"

text \<open>\<^verbatim>\<open>match.group(i)\<close>, for \<open>i\<close> from 1.\<close>

definition match_group :: "string list \<Rightarrow> nat \<Rightarrow> string" where
  "match_group caps i = caps ! (i - 1)"

definition lits :: "string \<Rightarrow> pattern" where
  "lits s = map Lit s"

text \<open>The groups of a pattern, in order: the class and the minimum of each.\<close>

fun cap_specs :: "pattern \<Rightarrow> (cclass \<times> nat) list" where
  "cap_specs [] = []"
| "cap_specs (Cap c n # p) = (c, n) # cap_specs p"
| "cap_specs (Lit c # p) = cap_specs p"
| "cap_specs (Rep c n # p) = cap_specs p"

text \<open>The patterns, in the order of the source.\<close>

definition numa_name_pat :: pattern where
  \<comment> \<open>\<^verbatim>\<open>exclusive_numa(\d+)\<close>\<close>
  "numa_name_pat = lits ''exclusive_numa'' @ [Cap Digit 1]"

definition task_name_pat :: pattern where
  \<comment> \<open>\<^verbatim>\<open>shared_task(\d+)\<close>\<close>
  "task_name_pat = lits ''shared_task'' @ [Cap Digit 1]"

definition cpubind_pat :: pattern where
  \<comment> \<open>\<^verbatim>\<open>cpubind:\s*(\d+)\<close>\<close>
  "cpubind_pat = lits ''cpubind:'' @ [Rep Space 0, Cap Digit 1]"

definition gpu_pat :: pattern where
  \<comment> \<open>\<^verbatim>\<open>CUDA_VISIBLE_DEVICES:\s*(\d+)\<close>\<close>
  "gpu_pat = lits ''CUDA_VISIBLE_DEVICES:'' @ [Rep Space 0, Cap Digit 1]"

definition perf_pat :: pattern where
  \<comment> \<open>\<^verbatim>\<open>Performance:\s+([\d.]+)\s+ns/day\<close>\<close>
  "perf_pat = lits ''Performance:'' @ [Rep Space 1, Cap NumChar 1, Rep Space 1] @ lits ''ns/day''"

definition perf_alt_pat :: pattern where
  \<comment> \<open>\<^verbatim>\<open>([\d.]+)\s+ns/day\<close>\<close>
  "perf_alt_pat = [Cap NumChar 1, Rep Space 1] @ lits ''ns/day''"

definition time_pat :: pattern where
  \<comment> \<open>\<^verbatim>\<open>Time:\s+([\d.]+)\s+([\d.]+)\s+([\d.]+)\<close>\<close>
  "time_pat = lits ''Time:'' @
     [Rep Space 1, Cap NumChar 1, Rep Space 1, Cap NumChar 1, Rep Space 1, Cap NumChar 1]"

definition finished_pat :: pattern where
  \<comment> \<open>\<^verbatim>\<open>Finished mdrun.*\n.*wall\s+([\d.]+)\s+s\<close>; \<^verbatim>\<open>re.MULTILINE\<close> changes only
      \<^verbatim>\<open>^\<close> and \<^verbatim>\<open>$\<close>, which the pattern does not use\<close>
  "finished_pat = lits ''Finished mdrun'' @ [Rep AnyButNewline 0, Lit NL, Rep AnyButNewline 0] @
     lits ''wall'' @ [Rep Space 1, Cap NumChar 1, Rep Space 1, Lit (CHR ''s'')]"

subsection \<open>\<^verbatim>\<open>int()\<close> and \<^verbatim>\<open>float()\<close> on captured text\<close>

definition digit_val :: "char \<Rightarrow> nat" where
  "digit_val c = of_char c - 48"

definition nat_of_digits :: "string \<Rightarrow> nat" where
  "nat_of_digits s = foldl (\<lambda>a c. 10 * a + digit_val c) 0 s"

text \<open>\<^verbatim>\<open>int(s)\<close> for a non-empty string of ASCII digits, which is all \<^verbatim>\<open>(\d+)\<close> captures.\<close>

definition py_int :: "string \<Rightarrow> int" where
  "py_int s = int (nat_of_digits s)"

text \<open>The texts \<^verbatim>\<open>int()\<close> is applied to: non-empty strings of ASCII digits.\<close>

definition int_literal :: "string \<Rightarrow> bool" where
  "int_literal s \<longleftrightarrow> s \<noteq> [] \<and> list_all is_digit s"

datatype py_error = OSError string | UnicodeDecodeError string | ValueError string

text \<open>
  \<^verbatim>\<open>float(s)\<close> for a string of ASCII digits and dots, which is all \<^verbatim>\<open>([\d.]+)\<close>
  captures: the text is a float literal when it has at most one dot and at least one
  digit (\<^verbatim>\<open>"12.345"\<close>, \<^verbatim>\<open>"7."\<close>, \<^verbatim>\<open>".5"\<close>); otherwise \<^verbatim>\<open>float\<close> raises
  \<^verbatim>\<open>ValueError\<close> (\<^verbatim>\<open>"."\<close>, \<^verbatim>\<open>"1.2.3"\<close>).
\<close>

definition int_part :: "string \<Rightarrow> string" where
  "int_part s = takeWhile (\<lambda>c. c \<noteq> CHR ''.'') s"

definition frac_part :: "string \<Rightarrow> string" where
  "frac_part s = drop 1 (dropWhile (\<lambda>c. c \<noteq> CHR ''.'') s)"

definition float_literal :: "string \<Rightarrow> bool" where
  "float_literal s \<longleftrightarrow>
     list_all is_digit (int_part s) \<and> list_all is_digit (frac_part s) \<and>
     (int_part s \<noteq> [] \<or> frac_part s \<noteq> [])"

definition float_value :: "string \<Rightarrow> rat" where
  "float_value s = of_nat (nat_of_digits (int_part s @ frac_part s)) / 10 ^ length (frac_part s)"

definition py_float :: "string \<Rightarrow> py_error + rat" where
  "py_float s =
     (if float_literal s then Inr (float_value s)
      else Inl (ValueError (''could not convert string to float: '' @ [CHR 0x27] @ s @ [CHR 0x27])))"

subsection \<open>The record and \<^verbatim>\<open>parse_gromacs_log\<close>\<close>

datatype category = exclusive | shared

text \<open>
  The dictionary built at lines 18 to 27, with the keys of the source (\<open>file\<close> is
  \<open>file_name\<close> and \<open>type\<close> is \<open>category_of\<close> here) and \<^verbatim>\<open>None\<close> as \<^const>\<open>None\<close>.
\<close>

record log_record =
  file_name :: string
  category_of :: category
  numa_node :: "int option"
  task_id :: "int option"
  gpu_id :: "int option"
  performance_ns_day :: "rat option"
  wall_time_s :: "rat option"
  core_time_s :: "rat option"

text \<open>\<^verbatim>\<open>sub in s\<close> on strings.\<close>

fun starts_with :: "string \<Rightarrow> string \<Rightarrow> bool" where
  "starts_with s [] = True"
| "starts_with [] (p # ps) = False"
| "starts_with (x # xs) (p # ps) = (x = p \<and> starts_with xs ps)"

fun contains :: "string \<Rightarrow> string \<Rightarrow> bool" where
  "contains [] sub = (sub = [])"
| "contains (x # xs) sub = (starts_with (x # xs) sub \<or> contains xs sub)"

definition new_result :: "string \<Rightarrow> log_record" where
  \<comment> \<open>lines 18 to 27\<close>
  "new_result name =
     \<lparr>file_name = name,
      category_of = (if contains name ''exclusive'' then exclusive else shared),
      numa_node = None, task_id = None, gpu_id = None,
      performance_ns_day = None, wall_time_s = None, core_time_s = None\<rparr>"

definition set_from_name :: "string \<Rightarrow> log_record \<Rightarrow> log_record" where
  \<comment> \<open>lines 30 to 37\<close>
  "set_from_name name r =
     (if contains name ''exclusive'' then
        (case search numa_name_pat name of
           Some m \<Rightarrow> r\<lparr>numa_node := Some (py_int (match_group m 1))\<rparr>
         | None \<Rightarrow> r)
      else
        (case search task_name_pat name of
           Some m \<Rightarrow> r\<lparr>task_id := Some (py_int (match_group m 1))\<rparr>
         | None \<Rightarrow> r))"

definition set_numa :: "string \<Rightarrow> log_record \<Rightarrow> log_record" where
  \<comment> \<open>lines 40 to 42\<close>
  "set_numa content r =
     (case search cpubind_pat content of
        Some m \<Rightarrow> r\<lparr>numa_node := Some (py_int (match_group m 1))\<rparr>
      | None \<Rightarrow> r)"

definition set_gpu :: "string \<Rightarrow> log_record \<Rightarrow> log_record" where
  \<comment> \<open>lines 45 to 47\<close>
  "set_gpu content r =
     (case search gpu_pat content of
        Some m \<Rightarrow> r\<lparr>gpu_id := Some (py_int (match_group m 1))\<rparr>
      | None \<Rightarrow> r)"

definition set_perf :: "string \<Rightarrow> log_record \<Rightarrow> py_error + log_record" where
  \<comment> \<open>lines 51 to 53\<close>
  "set_perf content r =
     (case search perf_pat content of
        Some m \<Rightarrow>
          (case py_float (match_group m 1) of
             Inl e \<Rightarrow> Inl e
           | Inr v \<Rightarrow> Inr (r\<lparr>performance_ns_day := Some v\<rparr>))
      | None \<Rightarrow> Inr r)"

definition set_perf_alt :: "string \<Rightarrow> log_record \<Rightarrow> py_error + log_record" where
  \<comment> \<open>lines 56 to 59\<close>
  "set_perf_alt content r =
     (if performance_ns_day r = None then
        (case search perf_alt_pat content of
           Some m \<Rightarrow>
             (case py_float (match_group m 1) of
                Inl e \<Rightarrow> Inl e
              | Inr v \<Rightarrow> Inr (r\<lparr>performance_ns_day := Some v\<rparr>))
         | None \<Rightarrow> Inr r)
      else Inr r)"

definition set_time :: "string \<Rightarrow> log_record \<Rightarrow> py_error + log_record" where
  \<comment> \<open>lines 62 to 65: group 2 is converted first, then group 1\<close>
  "set_time content r =
     (case search time_pat content of
        Some m \<Rightarrow>
          (case py_float (match_group m 2) of
             Inl e \<Rightarrow> Inl e
           | Inr w \<Rightarrow>
               (case py_float (match_group m 1) of
                  Inl e \<Rightarrow> Inl e
                | Inr c \<Rightarrow> Inr (r\<lparr>wall_time_s := Some w, core_time_s := Some c\<rparr>)))
      | None \<Rightarrow> Inr r)"

definition set_finished :: "string \<Rightarrow> log_record \<Rightarrow> py_error + log_record" where
  \<comment> \<open>lines 68 to 70\<close>
  "set_finished content r =
     (case search finished_pat content of
        Some m \<Rightarrow>
          (case py_float (match_group m 1) of
             Inl e \<Rightarrow> Inl e
           | Inr v \<Rightarrow> Inr (r\<lparr>wall_time_s := Some v\<rparr>))
      | None \<Rightarrow> Inr r)"

definition name_fields :: "string \<Rightarrow> string \<Rightarrow> log_record" where
  \<comment> \<open>the dictionary after line 47: the steps that convert no float\<close>
  "name_fields name content =
     set_gpu content (set_numa content (set_from_name name (new_result name)))"

definition and_then :: "'e + 'a \<Rightarrow> ('a \<Rightarrow> 'e + 'b) \<Rightarrow> 'e + 'b" where
  "and_then x f = (case x of Inl e \<Rightarrow> Inl e | Inr a \<Rightarrow> f a)"

text \<open>
  Lines 18 to 72 of \<^verbatim>\<open>parse_gromacs_log\<close>, everything after \<^verbatim>\<open>read_text\<close>: the
  extractor (\<^verbatim>\<open>extract\<close> in the specification), a function of the name and the text of a file.
\<close>

definition extract_record :: "string \<Rightarrow> string \<Rightarrow> py_error + log_record" where
  "extract_record name content =
     and_then (and_then (and_then
       (set_perf content (name_fields name content))
       (set_perf_alt content)) (set_time content)) (set_finished content)"

text \<open>
  A directory entry: what \<^verbatim>\<open>read_text\<close> gives for it, the decoded text or the exception
  (\<^verbatim>\<open>OSError\<close> for an entry that cannot be read, \<^verbatim>\<open>UnicodeDecodeError\<close> for bytes
  that do not decode).
\<close>

datatype file_entry = Text string | Unreadable py_error

fun read_text :: "file_entry \<Rightarrow> py_error + string" where
  "read_text (Text content) = Inr content"
| "read_text (Unreadable e) = Inl e"

text \<open>
  Whether every float conversion of \<^verbatim>\<open>parse_gromacs_log\<close> on a text succeeds: the group
  of the performance pattern that is used, groups 2 and 1 of the timing line, and the
  group of the \<^verbatim>\<open>Finished mdrun\<close> pattern.
\<close>

definition captures_convert :: "string \<Rightarrow> bool" where
  "captures_convert content \<longleftrightarrow>
     (case search perf_pat content of
        Some m \<Rightarrow> float_literal (match_group m 1)
      | None \<Rightarrow>
          (case search perf_alt_pat content of
             Some m \<Rightarrow> float_literal (match_group m 1)
           | None \<Rightarrow> True)) \<and>
     (case search time_pat content of
        Some m \<Rightarrow> float_literal (match_group m 2) \<and> float_literal (match_group m 1)
      | None \<Rightarrow> True) \<and>
     (case search finished_pat content of
        Some m \<Rightarrow> float_literal (match_group m 1)
      | None \<Rightarrow> True)"

definition parse_gromacs_log :: "string \<times> file_entry \<Rightarrow> py_error + log_record" where
  "parse_gromacs_log entry = and_then (read_text (snd entry)) (extract_record (fst entry))"

subsection \<open>\<^verbatim>\<open>parse_all_results\<close>\<close>

text \<open>
  A directory is the list of its entries, each a name with what reading it gives, in
  the order the operating system lists them.  \<open>glob_match\<close> is the file name matching of
  \<^verbatim>\<open>Path.glob\<close> for a pattern whose only special character is \<^verbatim>\<open>*\<close>.
\<close>

type_synonym directory = "(string \<times> file_entry) list"

fun glob_match :: "string \<Rightarrow> string \<Rightarrow> bool" where
  "glob_match [] s = (s = [])"
| "glob_match (p # ps) [] = (p = CHR ''*'' \<and> glob_match ps [])"
| "glob_match (p # ps) (c # cs) =
     (if p = CHR ''*'' then glob_match ps (c # cs) \<or> glob_match (p # ps) cs
      else p = c \<and> glob_match ps cs)"

definition glob_sorted :: "directory \<Rightarrow> string \<Rightarrow> directory" where
  \<comment> \<open>\<^verbatim>\<open>sorted(data_dir.glob(pattern))\<close>: paths of one directory compare by name\<close>
  "glob_sorted dir pat = sort_key fst (filter (\<lambda>e. glob_match pat (fst e)) dir)"

fun error_text :: "py_error \<Rightarrow> string" where
  \<comment> \<open>\<^verbatim>\<open>str(e)\<close>\<close>
  "error_text (OSError msg) = msg"
| "error_text (UnicodeDecodeError msg) = msg"
| "error_text (ValueError msg) = msg"

text \<open>
  The inner loop (lines 80 to 86) on the state of the outer one: the records so far and
  the lines printed so far.  \<^verbatim>\<open>except Exception\<close> catches each of the three exceptions.
\<close>

fun parse_files :: "directory \<Rightarrow> log_record list \<times> string list \<Rightarrow> log_record list \<times> string list" where
  "parse_files [] st = st"
| "parse_files (e # es) (results, out) =
     (case parse_gromacs_log e of
        Inr result \<Rightarrow> parse_files es (results @ [result], out @ [''Parsed: '' @ fst e])
      | Inl err \<Rightarrow>
          parse_files es (results, out @ [''Error parsing '' @ fst e @ '': '' @ error_text err]))"

definition log_patterns :: "string list" where
  "log_patterns = [''exclusive_numa*.log'', ''shared_task*.log'']"

definition parse_all_results :: "directory \<Rightarrow> log_record list \<times> string list" where
  "parse_all_results dir = foldl (\<lambda>st pat. parse_files (glob_sorted dir pat) st) ([], []) log_patterns"

text \<open>
  Notions for stating what \<^verbatim>\<open>parse_all_results\<close> returns: whether an entry parses, the
  records of the entries of a list that parse, the line printed for an entry, and the
  entries the two loops visit, in order.
\<close>

definition parses :: "string \<times> file_entry \<Rightarrow> bool" where
  "parses e = (case parse_gromacs_log e of Inr r \<Rightarrow> True | Inl err \<Rightarrow> False)"

definition records_of :: "directory \<Rightarrow> log_record list" where
  "records_of es =
     List.map_filter (\<lambda>e. case parse_gromacs_log e of Inr r \<Rightarrow> Some r | Inl err \<Rightarrow> None) es"

definition report_line :: "string \<times> file_entry \<Rightarrow> string" where
  "report_line e =
     (case parse_gromacs_log e of
        Inr r \<Rightarrow> ''Parsed: '' @ fst e
      | Inl err \<Rightarrow> ''Error parsing '' @ fst e @ '': '' @ error_text err)"

definition collected :: "directory \<Rightarrow> directory" where
  "collected dir = glob_sorted dir ''exclusive_numa*.log'' @ glob_sorted dir ''shared_task*.log''"

subsection \<open>\<^verbatim>\<open>print_summary\<close>\<close>




















subsection \<open>\<^verbatim>\<open>main\<close>\<close>




text \<open>
  A run: what was printed, the records handed to \<^verbatim>\<open>json.dumps\<close> and written (their
  serialisation is not modelled), and the exit status of the process: 0 when \<^verbatim>\<open>main\<close>
  returns, 1 when an exception leaves it uncaught, the code of a \<^verbatim>\<open>SystemExit\<close>.
\<close>

record run =
  stdout :: "string list"
  saved :: "log_record list option"
  exit_status :: nat


subsection \<open>The shapes of text that the timing, task and binding patterns look for\<close>

text \<open>
  What the patterns \<open>time_pat\<close>, \<open>finished_pat\<close>, \<open>task_name_pat\<close> and \<open>cpubind_pat\<close>
  of the source mean, written without the matcher; each is proved below to hold exactly
  when its pattern occurs in the text.
\<close>

definition has_timing_line :: "string \<Rightarrow> bool" where
  \<comment> \<open>somewhere \<^verbatim>\<open>Time:\<close> is followed by three numbers, each after white space\<close>
  "has_timing_line content \<longleftrightarrow>
     (\<exists>pre ws1 c ws2 w ws3 t post.
        content = pre @ ''Time:'' @ ws1 @ c @ ws2 @ w @ ws3 @ t @ post \<and>
        blank ws1 \<and> number_text c \<and> blank ws2 \<and> number_text w \<and> blank ws3 \<and> number_text t)"

definition one_line :: "string \<Rightarrow> bool" where
  \<comment> \<open>text without a line break, what \<^verbatim>\<open>.*\<close> matches\<close>
  "one_line l \<longleftrightarrow> list_all (\<lambda>c. c \<noteq> NL) l"

definition has_finished_pair :: "string \<Rightarrow> bool" where
  \<comment> \<open>somewhere a line goes on after \<^verbatim>\<open>Finished mdrun\<close>, and the next line has
      \<^verbatim>\<open>wall\<close>, white space, a number, white space and \<^verbatim>\<open>s\<close>\<close>
  "has_finished_pair content \<longleftrightarrow>
     (\<exists>pre l1 l2 ws1 num ws2 post.
        content = pre @ ''Finished mdrun'' @ l1 @ [NL] @ l2 @ ''wall'' @ ws1 @ num @ ws2 @ ''s'' @ post \<and>
        one_line l1 \<and> one_line l2 \<and> blank ws1 \<and> number_text num \<and> blank ws2)"

definition has_task_digits :: "string \<Rightarrow> bool" where
  \<comment> \<open>somewhere \<^verbatim>\<open>shared_task\<close> is followed by a digit\<close>
  "has_task_digits name \<longleftrightarrow>
     (\<exists>pre ds post. name = pre @ ''shared_task'' @ ds @ post \<and> int_literal ds)"

definition has_cpubind :: "string \<Rightarrow> bool" where
  \<comment> \<open>somewhere \<^verbatim>\<open>cpubind:\<close> is followed by a digit, after white space or none\<close>
  "has_cpubind content \<longleftrightarrow>
     (\<exists>pre ws ds post. content = pre @ ''cpubind:'' @ ws @ ds @ post \<and>
        list_all is_space ws \<and> int_literal ds)"

section \<open>The matcher against the meaning of a pattern\<close>

lemma first_some_SomeD: "first_some f xs = Some y \<Longrightarrow> \<exists>x\<in>set xs. f x = Some y"
  by (induction xs) (auto split: option.splits)

lemma first_some_None_iff: "first_some f xs = None \<longleftrightarrow> (\<forall>x\<in>set xs. f x = None)"
  by (induction xs) (auto split: option.splits)

lemma first_some_hit: "x \<in> set xs \<Longrightarrow> f x \<noteq> None \<Longrightarrow> first_some f xs \<noteq> None"
  by (simp add: first_some_None_iff) blast

lemma set_countdown: "set (countdown m n) = {m..n}"
  by (induction n) auto

lemma take_run_in_class:
  "k \<le> run_length c s \<Longrightarrow> list_all (in_class c) (take k s)"
  unfolding run_length_def
proof (induction s arbitrary: k)
  case Nil
  then show ?case by simp
next
  case (Cons x xs)
  then show ?case by (cases k) (auto split: if_splits)
qed

lemma run_length_ge:
  "list_all (in_class c) w \<Longrightarrow> length w \<le> run_length c (w @ s)"
  unfolding run_length_def by (induction w) auto

lemma matchp_sound:
  "matchp p s caps = Some r \<Longrightarrow> \<exists>m rest cs. s = m @ rest \<and> matches p m cs \<and> r = caps @ cs"
proof (induction p arbitrary: s caps)
  case Nil
  then show ?case by (auto intro: m_Nil)
next
  case (Cons i p)
  show ?case
  proof (cases i)
    case (Lit c)
    with Cons.prems obtain xs where s: "s = c # xs" and m: "matchp p xs caps = Some r"
      by (auto split: list.splits if_splits)
    from Cons.IH[OF m] obtain m' rest cs where "xs = m' @ rest" "matches p m' cs" "r = caps @ cs"
      by blast
    with s Lit have "s = (c # m') @ rest \<and> matches (i # p) (c # m') cs \<and> r = caps @ cs"
      by (auto intro: m_Lit)
    then show ?thesis by blast
  next
    case (Rep c n)
    with Cons.prems obtain k where k: "k \<in> set (countdown n (run_length c s))"
      and m: "matchp p (drop k s) caps = Some r"
      by (auto dest: first_some_SomeD)
    from k have kn: "n \<le> k" "k \<le> run_length c s" by (auto simp: set_countdown)
    have kl: "k \<le> length s" using kn(2) unfolding run_length_def
      by (meson le_trans length_takeWhile_le)
    from Cons.IH[OF m] obtain m' rest cs where d: "drop k s = m' @ rest" and ms: "matches p m' cs" and r: "r = caps @ cs"
      by blast
    have "matches (Rep c n # p) (take k s @ m') cs"
      using ms kn kl by (intro m_Rep take_run_in_class) auto
    moreover have "s = (take k s @ m') @ rest" using d by (metis append_assoc append_take_drop_id)
    ultimately show ?thesis using r Rep by blast
  next
    case (Cap c n)
    with Cons.prems obtain k where k: "k \<in> set (countdown n (run_length c s))"
      and m: "matchp p (drop k s) (caps @ [take k s]) = Some r"
      by (auto dest: first_some_SomeD)
    from k have kn: "n \<le> k" "k \<le> run_length c s" by (auto simp: set_countdown)
    have kl: "k \<le> length s" using kn(2) unfolding run_length_def
      by (meson le_trans length_takeWhile_le)
    from Cons.IH[OF m] obtain m' rest cs where d: "drop k s = m' @ rest" and ms: "matches p m' cs" and r: "r = (caps @ [take k s]) @ cs"
      by blast
    have "matches (Cap c n # p) (take k s @ m') (take k s # cs)"
      using ms kn kl by (intro m_Cap take_run_in_class) auto
    moreover have "s = (take k s @ m') @ rest" using d by (metis append_assoc append_take_drop_id)
    moreover have "r = caps @ (take k s # cs)" using r by simp
    ultimately show ?thesis using Cap by blast
  qed
qed

lemma matchp_complete:
  "matches p m cs \<Longrightarrow> matchp p (m @ rest) caps \<noteq> None"
proof (induction arbitrary: caps rule: matches.induct)
  case m_Nil
  then show ?case by simp
next
  case (m_Lit p m caps' c)
  then show ?case by simp
next
  case (m_Rep p m caps' n w c)
  have "length w \<in> set (countdown n (run_length c ((w @ m) @ rest)))"
    using m_Rep.hyps run_length_ge[of c w "m @ rest"] by (simp add: set_countdown)
  moreover have "matchp p (drop (length w) ((w @ m) @ rest)) caps \<noteq> None"
    using m_Rep.IH by simp
  ultimately have "first_some (\<lambda>k. matchp p (drop k ((w @ m) @ rest)) caps)
      (countdown n (run_length c ((w @ m) @ rest))) \<noteq> None"
    by (rule first_some_hit)
  then show ?case by simp
next
  case (m_Cap p m caps' n w c)
  have "length w \<in> set (countdown n (run_length c ((w @ m) @ rest)))"
    using m_Cap.hyps run_length_ge[of c w "m @ rest"] by (simp add: set_countdown)
  moreover have "matchp p (drop (length w) ((w @ m) @ rest)) (caps @ [take (length w) ((w @ m) @ rest)]) \<noteq> None"
    using m_Cap.IH by simp
  ultimately have "first_some (\<lambda>k. matchp p (drop k ((w @ m) @ rest)) (caps @ [take k ((w @ m) @ rest)]))
      (countdown n (run_length c ((w @ m) @ rest))) \<noteq> None"
    by (rule first_some_hit)
  then show ?case by simp
qed

lemma search_SomeD:
  "search p s = Some r \<Longrightarrow> \<exists>pre m post. s = pre @ m @ post \<and> matches p m r"
proof (induction s)
  case Nil
  then show ?case using matchp_sound[of p "[]" "[]" r] by auto
next
  case (Cons x xs)
  show ?case
  proof (cases "matchp p (x # xs) []")
    case None
    with Cons obtain pre m post where "xs = pre @ m @ post" "matches p m r" by auto
    then have "x # xs = (x # pre) @ m @ post \<and> matches p m r" by simp
    then show ?thesis by blast
  next
    case (Some a)
    with Cons.prems have "a = r" by simp
    with Some matchp_sound[of p "x # xs" "[]" r] obtain m rest where "x # xs = [] @ m @ rest" "matches p m r"
      by auto
    then show ?thesis by blast
  qed
qed

lemma search_complete:
  "matches p m cs \<Longrightarrow> search p (pre @ m @ post) \<noteq> None"
proof (induction pre)
  case Nil
  then show ?case using matchp_complete[of p m cs post "[]"]
    by (cases "m @ post") (auto split: option.splits)
next
  case (Cons a pre)
  then show ?case by (auto split: option.splits)
qed

lemma search_None_iff: "search p s = None \<longleftrightarrow> \<not> occurs p s"
proof
  assume "search p s = None"
  show "\<not> occurs p s"
  proof
    assume "occurs p s"
    then obtain pre m post caps where "s = pre @ m @ post" "matches p m caps"
      unfolding occurs_def by blast
    then have "search p s \<noteq> None" using search_complete by blast
    with \<open>search p s = None\<close> show False by simp
  qed
next
  assume n: "\<not> occurs p s"
  show "search p s = None"
  proof (cases "search p s")
    case None
    then show ?thesis .
  next
    case (Some r)
    from search_SomeD[OF this] have "occurs p s" unfolding occurs_def by blast
    with n show ?thesis by simp
  qed
qed

lemma matches_groups: "matches p m cs \<Longrightarrow> length cs = length (filter (\<lambda>i. case i of Cap _ _ \<Rightarrow> True | _ \<Rightarrow> False) p)"
  by (induction rule: matches.induct) auto

lemma occurs_search: "occurs p s \<Longrightarrow> \<exists>caps. search p s = Some caps"
  using search_None_iff[of p s] by (cases "search p s") simp_all
lemma leftmost_matchI:
  assumes "s = pre @ m @ post" and "matches p m caps"
    and "\<And>pre' m' post' caps'. s = pre' @ m' @ post' \<Longrightarrow> matches p m' caps' \<Longrightarrow> length pre \<le> length pre'"
  shows "leftmost_match p s caps"
proof -
  have "\<forall>pre' m' post' caps'. s = pre' @ m' @ post' \<and> matches p m' caps' \<longrightarrow> length pre \<le> length pre'"
    by (intro allI impI, elim conjE, rule assms(3))
  with assms(1,2) have "s = pre @ m @ post \<and> matches p m caps \<and>
     (\<forall>pre' m' post' caps'. s = pre' @ m' @ post' \<and> matches p m' caps' \<longrightarrow> length pre \<le> length pre')"
    by (intro conjI)
  then show ?thesis unfolding leftmost_match_def by (intro exI)
qed
lemma leftmost_matchE:
  assumes "leftmost_match p s caps"
  obtains pre m post where "s = pre @ m @ post" and "matches p m caps"
    and "\<And>pre' m' post' caps'. s = pre' @ m' @ post' \<Longrightarrow> matches p m' caps' \<Longrightarrow> length pre \<le> length pre'"
proof -
  from assms obtain pre m post where a: "s = pre @ m @ post" and b: "matches p m caps"
    and c: "\<forall>pre' m' post' caps'. s = pre' @ m' @ post' \<and> matches p m' caps' \<longrightarrow> length pre \<le> length pre'"
    unfolding leftmost_match_def by (elim exE conjE)
  have "length pre \<le> length pre'" if "s = pre' @ m' @ post'" "matches p m' caps'" for pre' m' post' caps'
    using c that by (elim allE[of _ pre'] allE[of _ m'] allE[of _ post'] allE[of _ caps']) simp
  with a b show thesis by (rule that)
qed
lemma matchp_leftmost:
  assumes "matchp p s [] = Some caps"
  shows "leftmost_match p s caps"
proof -
  from matchp_sound[OF assms] obtain m rest where "s = [] @ m @ rest" "matches p m caps"
    by auto
  then show ?thesis by (rule leftmost_matchI) simp
qed
lemma search_leftmost: "search p s = Some caps \<Longrightarrow> leftmost_match p s caps"
proof (induction s)
  case Nil
  then show ?case by (simp add: matchp_leftmost)
next
  case (Cons x xs)
  show ?case
  proof (cases "matchp p (x # xs) []")
    case (Some a)
    with Cons.prems have "matchp p (x # xs) [] = Some caps" by simp
    then show ?thesis by (rule matchp_leftmost)
  next
    case None
    with Cons.prems have "search p xs = Some caps" by simp
    from Cons.IH[OF this] have "leftmost_match p xs caps" .
    then show ?thesis
    proof (rule leftmost_matchE)
      fix pre m post
      assume xs: "xs = pre @ m @ post" and m: "matches p m caps"
        and least: "\<And>pre' m' post' caps'. xs = pre' @ m' @ post' \<Longrightarrow> matches p m' caps' \<Longrightarrow> length pre \<le> length pre'"
      show ?thesis
      proof (rule leftmost_matchI)
        show "x # xs = (x # pre) @ m @ post" using xs by simp
      show "matches p m caps" by (rule m)
      show "length (x # pre) \<le> length pre'"
        if "x # xs = pre' @ m' @ post'" "matches p m' caps'" for pre' m' post' caps'
      proof (cases pre')
        case Nil
        with that have "matchp p (x # xs) [] \<noteq> None"
          using matchp_complete[of p m' caps' post' "[]"] by simp
        with None show ?thesis by simp
      next
        case (Cons y ys)
        with that have "xs = ys @ m' @ post'" by simp
        from least[OF this that(2)] Cons show ?thesis by simp
      qed
      qed
    qed
  qed
qed

section \<open>The extractor field by field\<close>

lemmas extract_defs = extract_record_def name_fields_def and_then_def set_perf_def set_perf_alt_def
  set_time_def set_finished_def set_gpu_def set_numa_def set_from_name_def new_result_def

lemmas pattern_defs = numa_name_pat_def task_name_pat_def cpubind_pat_def gpu_pat_def perf_pat_def
  perf_alt_pat_def time_pat_def finished_pat_def lits_def run_length_def is_space_def is_digit_def
  match_group_def

lemmas number_defs = py_float_def float_literal_def float_value_def int_part_def frac_part_def
  nat_of_digits_def digit_val_def py_int_def

lemma py_float_Inr: "py_float s = Inr v \<longleftrightarrow> float_literal s \<and> v = float_value s"
  by (auto simp: py_float_def)

lemma and_then_Inr: "and_then x f = Inr b \<longleftrightarrow> (\<exists>a. x = Inr a \<and> f a = Inr b)"
  by (cases x) (simp_all add: and_then_def)

lemma set_perf_Inr:
  assumes "set_perf content r = Inr r'"
  shows "r' = r\<lparr>performance_ns_day :=
           (case search perf_pat content of
              Some m \<Rightarrow> Some (float_value (match_group m 1))
            | None \<Rightarrow> performance_ns_day r)\<rparr>"
  using assms by (auto simp: set_perf_def py_float_Inr split: option.splits sum.splits)

lemma set_perf_alt_Inr:
  assumes "set_perf_alt content r = Inr r'"
  shows "r' = r\<lparr>performance_ns_day :=
           (if performance_ns_day r = None then
              (case search perf_alt_pat content of
                 Some m \<Rightarrow> Some (float_value (match_group m 1))
               | None \<Rightarrow> None)
            else performance_ns_day r)\<rparr>"
  using assms by (auto simp: set_perf_alt_def py_float_Inr split: option.splits sum.splits if_splits)

lemma set_time_Inr:
  assumes "set_time content r = Inr r'"
  shows "r' = r\<lparr>wall_time_s :=
             (case search time_pat content of
                Some m \<Rightarrow> Some (float_value (match_group m 2))
              | None \<Rightarrow> wall_time_s r),
           core_time_s :=
             (case search time_pat content of
                Some m \<Rightarrow> Some (float_value (match_group m 1))
              | None \<Rightarrow> core_time_s r)\<rparr>"
  using assms by (auto simp: set_time_def py_float_Inr split: option.splits sum.splits)

lemma set_finished_Inr:
  assumes "set_finished content r = Inr r'"
  shows "r' = r\<lparr>wall_time_s :=
           (case search finished_pat content of
              Some m \<Rightarrow> Some (float_value (match_group m 1))
            | None \<Rightarrow> wall_time_s r)\<rparr>"
  using assms by (auto simp: set_finished_def py_float_Inr split: option.splits sum.splits)


lemma extract_record_Inr:
  assumes "extract_record name content = Inr r"
  shows "r = (name_fields name content)
     \<lparr>performance_ns_day :=
        (case search perf_pat content of
           Some m \<Rightarrow> Some (float_value (match_group m 1))
         | None \<Rightarrow>
            (case search perf_alt_pat content of
               Some m \<Rightarrow> Some (float_value (match_group m 1))
             | None \<Rightarrow> None)),
      wall_time_s :=
        (case search finished_pat content of
           Some m \<Rightarrow> Some (float_value (match_group m 1))
         | None \<Rightarrow>
            (case search time_pat content of
               Some m \<Rightarrow> Some (float_value (match_group m 2))
             | None \<Rightarrow> None)),
      core_time_s :=
        (case search time_pat content of
           Some m \<Rightarrow> Some (float_value (match_group m 1))
         | None \<Rightarrow> None)\<rparr>"
proof -
  let ?r0 = "name_fields name content"
  from assms obtain r1 r2 r3 where
    1: "set_perf content ?r0 = Inr r1" and 2: "set_perf_alt content r1 = Inr r2" and
    3: "set_time content r2 = Inr r3" and 4: "set_finished content r3 = Inr r"
    unfolding extract_record_def and_then_Inr by blast
  have p0: "performance_ns_day ?r0 = None" "wall_time_s ?r0 = None" "core_time_s ?r0 = None"
    by (simp_all add: name_fields_def set_gpu_def set_numa_def set_from_name_def new_result_def
        split: option.splits)
  show ?thesis
    unfolding set_finished_Inr[OF 4] set_time_Inr[OF 3] set_perf_alt_Inr[OF 2] set_perf_Inr[OF 1]
    using p0 by (simp split: option.splits)
qed


lemma name_fields_simps:
  "file_name (name_fields name content) = name"
  "category_of (name_fields name content) = (if contains name ''exclusive'' then exclusive else shared)"
  "numa_node (name_fields name content) =
     (case search cpubind_pat content of
        Some m \<Rightarrow> Some (py_int (match_group m 1))
      | None \<Rightarrow>
          if contains name ''exclusive'' then
            (case search numa_name_pat name of
               Some m \<Rightarrow> Some (py_int (match_group m 1))
             | None \<Rightarrow> None)
          else None)"
  "task_id (name_fields name content) =
     (if contains name ''exclusive'' then None
      else (case search task_name_pat name of
              Some m \<Rightarrow> Some (py_int (match_group m 1))
            | None \<Rightarrow> None))"
  "gpu_id (name_fields name content) =
     (case search gpu_pat content of
        Some m \<Rightarrow> Some (py_int (match_group m 1))
      | None \<Rightarrow> None)"
  "performance_ns_day (name_fields name content) = None"
  "wall_time_s (name_fields name content) = None"
  "core_time_s (name_fields name content) = None"
  by (simp_all add: name_fields_def set_gpu_def set_numa_def set_from_name_def new_result_def
      split: option.splits)

lemma extract_record_name_fields:
  assumes "extract_record name content = Inr r"
  shows "file_name r = file_name (name_fields name content)"
    and "category_of r = category_of (name_fields name content)"
    and "numa_node r = numa_node (name_fields name content)"
    and "task_id r = task_id (name_fields name content)"
    and "gpu_id r = gpu_id (name_fields name content)"
  by (simp_all add: extract_record_Inr[OF assms])

lemma extract_record_performance:
  assumes "extract_record name content = Inr r"
  shows "performance_ns_day r =
        (case search perf_pat content of
           Some m \<Rightarrow> Some (float_value (match_group m 1))
         | None \<Rightarrow>
            (case search perf_alt_pat content of
               Some m \<Rightarrow> Some (float_value (match_group m 1))
             | None \<Rightarrow> None))"
  by (simp add: extract_record_Inr[OF assms])

lemma extract_record_times:
  assumes "extract_record name content = Inr r"
  shows "wall_time_s r =
        (case search finished_pat content of
           Some m \<Rightarrow> Some (float_value (match_group m 1))
         | None \<Rightarrow>
            (case search time_pat content of
               Some m \<Rightarrow> Some (float_value (match_group m 2))
             | None \<Rightarrow> None))"
    and "core_time_s r =
        (case search time_pat content of
           Some m \<Rightarrow> Some (float_value (match_group m 1))
         | None \<Rightarrow> None)"
  by (simp_all add: extract_record_Inr[OF assms])

lemma occurs_iff_search: "occurs p s \<longleftrightarrow> search p s \<noteq> None"
  by (simp add: search_None_iff)

lemma matches_caps:
  "matches p m caps \<Longrightarrow>
     list_all2 (\<lambda>w cn. snd cn \<le> length w \<and> list_all (in_class (fst cn)) w) caps (cap_specs p)"
  by (induction rule: matches.induct) simp_all

lemma search_caps:
  assumes "search p s = Some caps"
  shows "list_all2 (\<lambda>w cn. snd cn \<le> length w \<and> list_all (in_class (fst cn)) w) caps (cap_specs p)"
proof -
  from search_SomeD[OF assms] obtain m where "matches p m caps" by blast
  then show ?thesis by (rule matches_caps)
qed

lemma cap_specs_append: "cap_specs (p @ q) = cap_specs p @ cap_specs q"
  by (induction p rule: cap_specs.induct) simp_all

lemma cap_specs_lits: "cap_specs (lits s) = []"
  unfolding lits_def by (induction s) simp_all



lemma float_groups:
  "search perf_pat s = Some caps \<Longrightarrow> length caps = 1"
  "search perf_alt_pat s = Some caps \<Longrightarrow> length caps = 1"
  "search time_pat s = Some caps \<Longrightarrow> length caps = 3"
  "search finished_pat s = Some caps \<Longrightarrow> length caps = 1"
  by (drule search_caps, drule list_all2_lengthD,
      simp add: perf_pat_def perf_alt_pat_def time_pat_def finished_pat_def
        cap_specs_append cap_specs_lits)+



lemma set_perf_returns:
  "(\<exists>r'. set_perf content r = Inr r') \<longleftrightarrow>
     (case search perf_pat content of Some m \<Rightarrow> float_literal (match_group m 1) | None \<Rightarrow> True)"
  by (auto simp: set_perf_def py_float_def split: option.splits)

lemma set_perf_alt_returns:
  "(\<exists>r'. set_perf_alt content r = Inr r') \<longleftrightarrow>
     (performance_ns_day r = None \<longrightarrow>
       (case search perf_alt_pat content of Some m \<Rightarrow> float_literal (match_group m 1) | None \<Rightarrow> True))"
  by (auto simp: set_perf_alt_def py_float_def split: option.splits)

lemma set_time_returns:
  "(\<exists>r'. set_time content r = Inr r') \<longleftrightarrow>
     (case search time_pat content of
        Some m \<Rightarrow> float_literal (match_group m 2) \<and> float_literal (match_group m 1)
      | None \<Rightarrow> True)"
  by (auto simp: set_time_def py_float_def split: option.splits)

lemma set_finished_returns:
  "(\<exists>r'. set_finished content r = Inr r') \<longleftrightarrow>
     (case search finished_pat content of Some m \<Rightarrow> float_literal (match_group m 1) | None \<Rightarrow> True)"
  by (auto simp: set_finished_def py_float_def split: option.splits)

lemma extract_record_steps:
  assumes "extract_record name content = Inr r"
  obtains r1 r2 r3 where
    "set_perf content (name_fields name content) = Inr r1" and "set_perf_alt content r1 = Inr r2" and
    "set_time content r2 = Inr r3" and "set_finished content r3 = Inr r"
  using assms unfolding extract_record_def and_then_Inr by blast

lemma extract_record_returns_iff:
  "(\<exists>r. extract_record name content = Inr r) \<longleftrightarrow> captures_convert content"
proof
  assume "\<exists>r. extract_record name content = Inr r"
  then obtain r where "extract_record name content = Inr r" ..
  then obtain r1 r2 r3 where
    1: "set_perf content (name_fields name content) = Inr r1" and 2: "set_perf_alt content r1 = Inr r2" and
    3: "set_time content r2 = Inr r3" and 4: "set_finished content r3 = Inr r"
    by (rule extract_record_steps)
  have p1: "performance_ns_day r1 =
      (case search perf_pat content of Some m \<Rightarrow> Some (float_value (match_group m 1)) | None \<Rightarrow> None)"
    by (simp add: set_perf_Inr[OF 1] name_fields_simps split: option.splits)
  have a: "case search perf_pat content of Some m \<Rightarrow> float_literal (match_group m 1) | None \<Rightarrow> True"
    by (rule iffD1[OF set_perf_returns]) (rule exI, rule 1)
  have b: "performance_ns_day r1 = None \<longrightarrow>
       (case search perf_alt_pat content of Some m \<Rightarrow> float_literal (match_group m 1) | None \<Rightarrow> True)"
    by (rule iffD1[OF set_perf_alt_returns]) (rule exI, rule 2)
  have c: "case search time_pat content of
        Some m \<Rightarrow> float_literal (match_group m 2) \<and> float_literal (match_group m 1)
      | None \<Rightarrow> True"
    by (rule iffD1[OF set_time_returns]) (rule exI, rule 3)
  have d: "case search finished_pat content of Some m \<Rightarrow> float_literal (match_group m 1) | None \<Rightarrow> True"
    by (rule iffD1[OF set_finished_returns]) (rule exI, rule 4)
  from a b p1 have "case search perf_pat content of
        Some m \<Rightarrow> float_literal (match_group m 1)
      | None \<Rightarrow>
          (case search perf_alt_pat content of
             Some m \<Rightarrow> float_literal (match_group m 1)
           | None \<Rightarrow> True)"
    by (cases "search perf_pat content") simp_all
  with c d show "captures_convert content" unfolding captures_convert_def by (intro conjI)
next
  assume cc: "captures_convert content"
  then have a: "case search perf_pat content of Some m \<Rightarrow> float_literal (match_group m 1) | None \<Rightarrow> True"
    unfolding captures_convert_def by (simp split: option.splits)
  then have "\<exists>r'. set_perf content (name_fields name content) = Inr r'"
    by (rule iffD2[OF set_perf_returns])
  then obtain r1 where 1: "set_perf content (name_fields name content) = Inr r1" ..
  have p1: "performance_ns_day r1 =
      (case search perf_pat content of Some m \<Rightarrow> Some (float_value (match_group m 1)) | None \<Rightarrow> None)"
    by (simp add: set_perf_Inr[OF 1] name_fields_simps split: option.splits)
  from cc have "performance_ns_day r1 = None \<longrightarrow>
       (case search perf_alt_pat content of Some m \<Rightarrow> float_literal (match_group m 1) | None \<Rightarrow> True)"
    unfolding captures_convert_def p1 by (simp split: option.splits)
  then have "\<exists>r'. set_perf_alt content r1 = Inr r'"
    by (rule iffD2[OF set_perf_alt_returns])
  then obtain r2 where 2: "set_perf_alt content r1 = Inr r2" ..
  from cc have "case search time_pat content of
        Some m \<Rightarrow> float_literal (match_group m 2) \<and> float_literal (match_group m 1)
      | None \<Rightarrow> True"
    unfolding captures_convert_def by (elim conjE)
  then have "\<exists>r'. set_time content r2 = Inr r'"
    by (rule iffD2[OF set_time_returns])
  then obtain r3 where 3: "set_time content r2 = Inr r3" ..
  from cc have "case search finished_pat content of Some m \<Rightarrow> float_literal (match_group m 1) | None \<Rightarrow> True"
    unfolding captures_convert_def by (elim conjE)
  then have "\<exists>r'. set_finished content r3 = Inr r'"
    by (rule iffD2[OF set_finished_returns])
  then obtain r where 4: "set_finished content r3 = Inr r" ..
  from 1 2 3 4 have "extract_record name content = Inr r"
    unfolding extract_record_def by (simp add: and_then_def)
  then show "\<exists>r. extract_record name content = Inr r" ..
qed



lemma extract_record_literals:
  assumes "extract_record name content = Inr r"
  shows "captures_convert content"
  using assms extract_record_returns_iff by blast

subsection \<open>Where the greedy matcher finds its first match\<close>

lemma run_length_exact:
  "list_all (in_class c) w \<Longrightarrow> stops c s \<Longrightarrow> run_length c (w @ s) = length w"
  unfolding run_length_def stops_def
  by (induction w) (auto split: list.splits)

lemma countdown_first: "m \<le> n \<Longrightarrow> countdown m n = n # (case n of 0 \<Rightarrow> [] | Suc k \<Rightarrow> countdown m k)"
  by (cases n) auto

lemma matchp_lits: "matchp (lits l @ p) (l @ s) caps = matchp p s caps"
  unfolding lits_def by (induction l) simp_all

lemma matchp_Rep_greedy:
  assumes "list_all (in_class c) w" and "stops c s" and "n \<le> length w"
    and "matchp p s caps = Some r"
  shows "matchp (Rep c n # p) (w @ s) caps = Some r"
  using assms by (simp add: run_length_exact countdown_first)

lemma matchp_Cap_greedy:
  assumes "list_all (in_class c) w" and "stops c s" and "n \<le> length w"
    and "matchp p s (caps @ [w]) = Some r"
  shows "matchp (Cap c n # p) (w @ s) caps = Some r"
  using assms by (simp add: run_length_exact countdown_first)

lemma search_here:
  assumes "matchp p s [] = Some caps"
  shows "search p s = Some caps"
  using assms by (cases s) simp_all

lemma search_skip:
  assumes "\<And>pre' m' post' caps'. pre @ s = pre' @ m' @ post' \<Longrightarrow> matches p m' caps' \<Longrightarrow>
             length pre \<le> length pre'"
  shows "search p (pre @ s) = search p s"
  using assms
proof (induction pre)
  case Nil
  then show ?case by simp
next
  case (Cons x pre)
  have "matchp p (x # pre @ s) [] = None"
  proof (cases "matchp p (x # pre @ s) []")
    case None
    then show ?thesis .
  next
    case (Some r)
    from matchp_sound[OF this] obtain m rest cs where "x # pre @ s = m @ rest" "matches p m cs"
      by blast
    then have "(x # pre) @ s = [] @ m @ rest" by simp
    from Cons.prems[OF this \<open>matches p m cs\<close>] show ?thesis by simp
  qed
  moreover have "search p (pre @ s) = search p s"
  proof (rule Cons.IH)
    fix pre' m' post' caps'
    assume "pre @ s = pre' @ m' @ post'" and m: "matches p m' caps'"
    then have "(x # pre) @ s = (x # pre') @ m' @ post'" by simp
    from Cons.prems[OF this m] show "length pre \<le> length pre'" by simp
  qed
  ultimately show ?case by simp
qed

lemma space_stops_NumChar: "w \<noteq> [] \<Longrightarrow> list_all is_space w \<Longrightarrow> stops NumChar (w @ s)"
  by (cases w) (auto simp: stops_def is_space_def is_digit_def)

lemma NumChar_stops_Space: "w \<noteq> [] \<Longrightarrow> list_all (in_class NumChar) w \<Longrightarrow> stops Space (w @ s)"
  by (cases w) (auto simp: stops_def is_space_def is_digit_def)

lemma matchp_perf_pat:
  assumes "ws1 \<noteq> []" "list_all is_space ws1" "num \<noteq> []" "list_all (in_class NumChar) num"
    "ws2 \<noteq> []" "list_all is_space ws2"
  shows "matchp perf_pat (''Performance:'' @ ws1 @ num @ ws2 @ ''ns/day'' @ post) [] = Some [num]"
proof -
  have u: "matchp (lits ''ns/day'') (''ns/day'' @ post) [num] = Some [num]"
    using matchp_lits[of "''ns/day''" "[]" post "[num]"] by simp
  have s2: "stops Space (''ns/day'' @ post)" by (simp add: stops_def is_space_def)
  have 3: "matchp (Rep Space 1 # lits ''ns/day'') (ws2 @ ''ns/day'' @ post) [num] = Some [num]"
    using assms(5,6) s2 u by (intro matchp_Rep_greedy) (simp_all add: list_all_iff Suc_le_eq)
  have 2: "matchp (Cap NumChar 1 # Rep Space 1 # lits ''ns/day'') (num @ ws2 @ ''ns/day'' @ post) [] = Some [num]"
    using assms(3,4) space_stops_NumChar[OF assms(5,6)] 3
    by (intro matchp_Cap_greedy) (simp_all add: Suc_le_eq)
  have 1: "matchp (Rep Space 1 # Cap NumChar 1 # Rep Space 1 # lits ''ns/day'')
      (ws1 @ num @ ws2 @ ''ns/day'' @ post) [] = Some [num]"
    using assms(1,2) NumChar_stops_Space[OF assms(3,4)] 2
    by (intro matchp_Rep_greedy) (simp_all add: list_all_iff Suc_le_eq)
  show ?thesis
    unfolding perf_pat_def using matchp_lits[of "''Performance:''" _ _ "[]"] 1 by simp
qed

lemma matchp_perf_alt_pat:
  assumes "num \<noteq> []" "list_all (in_class NumChar) num" "ws \<noteq> []" "list_all is_space ws"
  shows "matchp perf_alt_pat (num @ ws @ ''ns/day'' @ post) [] = Some [num]"
proof -
  have u: "matchp (lits ''ns/day'') (''ns/day'' @ post) [num] = Some [num]"
    using matchp_lits[of "''ns/day''" "[]" post "[num]"] by simp
  have s2: "stops Space (''ns/day'' @ post)" by (simp add: stops_def is_space_def)
  have 3: "matchp (Rep Space 1 # lits ''ns/day'') (ws @ ''ns/day'' @ post) [num] = Some [num]"
    using assms(3,4) s2 u by (intro matchp_Rep_greedy) (simp_all add: list_all_iff Suc_le_eq)
  have 2: "matchp (Cap NumChar 1 # Rep Space 1 # lits ''ns/day'') (num @ ws @ ''ns/day'' @ post) [] = Some [num]"
    using assms(1,2) space_stops_NumChar[OF assms(3,4)] 3
    by (intro matchp_Cap_greedy) (simp_all add: Suc_le_eq)
  then show ?thesis unfolding perf_alt_pat_def by simp
qed

lemma matchp_name_digits:
  assumes "int_literal ds" and "stops Digit rest"
  shows "matchp (lits l @ [Cap Digit 1]) (l @ ds @ rest) [] = Some [ds]"
proof -
  have "matchp [Cap Digit 1] (ds @ rest) [] = Some [ds]"
    using assms by (intro matchp_Cap_greedy) (simp_all add: int_literal_def list_all_iff Suc_le_eq)
  then show ?thesis by (simp add: matchp_lits)
qed

lemma search_first_at:
  assumes "first_at p pre s" and "matchp p s [] = Some caps"
  shows "search p (pre @ s) = Some caps"
proof -
  have "search p (pre @ s) = search p s"
  proof (rule search_skip)
    fix pre' m' post' caps'
    assume "pre @ s = pre' @ m' @ post'" "matches p m' caps'"
    with assms(1) show "length pre \<le> length pre'" unfolding first_at_def by blast
  qed
  with search_here[OF assms(2)] show ?thesis by simp
qed

lemma search_perf_pat:
  assumes "blank ws1" "number_text num" "blank ws2"
    and "first_at perf_pat pre (''Performance:'' @ ws1 @ num @ ws2 @ ''ns/day'' @ post)"
  shows "search perf_pat (pre @ ''Performance:'' @ ws1 @ num @ ws2 @ ''ns/day'' @ post) = Some [num]"
  using assms(1-3) unfolding blank_def number_text_def
  by (intro search_first_at[OF assms(4)] matchp_perf_pat) simp_all

lemma search_perf_alt_pat:
  assumes "number_text num" "blank ws"
    and "first_at perf_alt_pat pre (num @ ws @ ''ns/day'' @ post)"
  shows "search perf_alt_pat (pre @ num @ ws @ ''ns/day'' @ post) = Some [num]"
  using assms(1-2) unfolding blank_def number_text_def
  by (intro search_first_at[OF assms(3)] matchp_perf_alt_pat) simp_all

lemma search_name_digits:
  assumes "int_literal ds" and "stops Digit rest" and "l \<noteq> []"
  shows "search (lits l @ [Cap Digit 1]) (l @ ds @ rest) = Some [ds]"
  by (rule search_here) (rule matchp_name_digits[OF assms(1,2)])

lemma first_at_Nil: "first_at p [] s"
  unfolding first_at_def by simp

lemma first_at_Cons:
  assumes "matchp p (x # pre @ s) [] = None" and "first_at p pre s"
  shows "first_at p (x # pre) s"
  unfolding first_at_def
proof (intro allI impI, elim conjE)
  fix pre' m' post' caps'
  assume eq: "(x # pre) @ s = pre' @ m' @ post'" and m: "matches p m' caps'"
  show "length (x # pre) \<le> length pre'"
  proof (cases pre')
    case Nil
    with eq have "x # pre @ s = m' @ post'" by simp
    with matchp_complete[OF m, of post' "[]"] assms(1) show ?thesis by simp
  next
    case (Cons y ys)
    with eq have "pre @ s = ys @ m' @ post'" by simp
    with assms(2) m have "length pre \<le> length ys" unfolding first_at_def by blast
    with Cons show ?thesis by simp
  qed
qed

section \<open>The collector and the summary\<close>

lemma records_of_simps:
  "records_of [] = []"
  "records_of (e # es) =
     (case parse_gromacs_log e of Inr r \<Rightarrow> r # records_of es | Inl err \<Rightarrow> records_of es)"
  by (simp_all add: records_of_def map_filter_simps split: sum.splits)

lemma records_of_append: "records_of (xs @ ys) = records_of xs @ records_of ys"
  by (induction xs) (simp_all add: records_of_simps split: sum.splits)

lemma parse_files_eq:
  "parse_files es (rs, out) = (rs @ records_of es, out @ map report_line es)"
  by (induction es arbitrary: rs out) (auto simp: records_of_simps report_line_def split: sum.splits)

lemma parse_all_results_eq:
  "parse_all_results dir = (records_of (collected dir), map report_line (collected dir))"
  by (simp add: parse_all_results_def log_patterns_def parse_files_eq collected_def records_of_append)

lemma records_of_filter_parses: "records_of (filter parses es) = records_of es"
  by (induction es) (auto simp: records_of_simps parses_def split: sum.splits)

lemma records_of_map: "records_of es = map (\<lambda>e. projr (parse_gromacs_log e)) (filter parses es)"
  by (induction es) (auto simp: records_of_simps parses_def split: sum.splits)

lemma glob_sorted_filter:
  "glob_sorted (filter P dir) pat = filter P (glob_sorted dir pat)"
  unfolding glob_sorted_def by (simp add: filter_sort[symmetric] conj_commute)

lemma parse_gromacs_log_name:
  assumes "parse_gromacs_log e = Inr r"
  shows "file_name r = fst e"
proof -
  from assms obtain content where "extract_record (fst e) content = Inr r"
    unfolding parse_gromacs_log_def and_then_Inr by blast
  from extract_record_name_fields(1)[OF this] show ?thesis by (simp add: name_fields_simps)
qed

lemma file_names_records_of: "map file_name (records_of es) = map fst (filter parses es)"
  unfolding records_of_map
  by (induction es) (auto simp: parses_def parse_gromacs_log_name split: sum.splits)

lemma glob_patterns_disjoint:
  "glob_match ''exclusive_numa*.log'' n \<Longrightarrow> \<not> glob_match ''shared_task*.log'' n"
  by (cases n) simp_all

lemma sorted_glob_sorted: "sorted (map fst (glob_sorted dir pat))"
  unfolding glob_sorted_def by simp

lemma set_glob_sorted: "set (glob_sorted dir pat) = {e \<in> set dir. glob_match pat (fst e)}"
  unfolding glob_sorted_def by auto

lemma distinct_glob_sorted:
  assumes "distinct (map fst dir)"
  shows "distinct (map fst (glob_sorted dir pat))"
proof -
  from assms have "distinct dir" and "inj_on fst (set dir)" by (simp_all add: distinct_map)
  then have "distinct (glob_sorted dir pat)" and "inj_on fst (set (glob_sorted dir pat))"
    by (auto simp: set_glob_sorted glob_sorted_def intro: inj_on_subset)
  then show ?thesis by (simp add: distinct_map)
qed

lemma glob_sorted_determined:
  assumes "set dir' = set dir" and "distinct (map fst dir)" and "distinct (map fst dir')"
  shows "glob_sorted dir' pat = glob_sorted dir pat"
proof -
  let ?a = "glob_sorted dir' pat" and ?b = "glob_sorted dir pat"
  have s: "set ?a = set ?b" using assms(1) by (simp add: set_glob_sorted)
  have da: "distinct (map fst ?a)" and db: "distinct (map fst ?b)"
    using assms(2,3) by (simp_all add: distinct_glob_sorted)
  have "map fst ?a = map fst ?b"
    by (rule sorted_distinct_set_unique) (use s da db in \<open>simp_all add: sorted_glob_sorted\<close>)
  moreover have "inj_on fst (set ?a \<union> set ?b)"
    using db s by (simp add: distinct_map)
  ultimately show ?thesis by (simp add: inj_on_map_eq_map)
qed

lemma set_collected:
  "set (collected dir) =
     {e \<in> set dir. glob_match ''exclusive_numa*.log'' (fst e) \<or> glob_match ''shared_task*.log'' (fst e)}"
  unfolding collected_def by (auto simp: set_glob_sorted)

lemma collected_filter: "collected (filter P dir) = filter P (collected dir)"
  unfolding collected_def by (simp add: glob_sorted_filter)

lemma collected_singleton:
  assumes "glob_match ''exclusive_numa*.log'' (fst e) \<or> glob_match ''shared_task*.log'' (fst e)"
  shows "collected [e] = [e]"
proof (cases "glob_match ''exclusive_numa*.log'' (fst e)")
  case True
  with glob_patterns_disjoint[of "fst e"] have "\<not> glob_match ''shared_task*.log'' (fst e)" by simp
  with True show ?thesis unfolding collected_def glob_sorted_def by simp
next
  case False
  with assms have "glob_match ''shared_task*.log'' (fst e)" by simp
  with False show ?thesis unfolding collected_def glob_sorted_def by simp
qed

lemma report_line_printed:
  "e \<in> set (collected dir) \<Longrightarrow> report_line e \<in> set (snd (parse_all_results dir))"
  by (simp add: parse_all_results_eq)

lemmas collect_defs = parse_all_results_def log_patterns_def glob_sorted_def parse_gromacs_log_def




section \<open>The patterns as shapes of text\<close>

lemma matches_Nil_iff: "matches [] m caps \<longleftrightarrow> m = [] \<and> caps = []"
  by (subst matches.simps) auto

lemma matches_Lit_iff: "matches (Lit c # p) m caps \<longleftrightarrow> (\<exists>m'. m = c # m' \<and> matches p m' caps)"
  by (subst matches.simps) auto

lemma matches_Rep_iff:
  "matches (Rep c n # p) m caps \<longleftrightarrow>
     (\<exists>w m'. m = w @ m' \<and> n \<le> length w \<and> list_all (in_class c) w \<and> matches p m' caps)"
  by (subst matches.simps) auto

lemma matches_Cap_iff:
  "matches (Cap c n # p) m caps \<longleftrightarrow>
     (\<exists>w m' caps'. m = w @ m' \<and> caps = w # caps' \<and> n \<le> length w \<and> list_all (in_class c) w \<and>
        matches p m' caps')"
  by (subst matches.simps) auto

lemma matches_lits_iff:
  "matches (lits l @ p) m caps \<longleftrightarrow> (\<exists>m'. m = l @ m' \<and> matches p m' caps)"
  unfolding lits_def by (induction l arbitrary: m) (auto simp: matches_Lit_iff)

lemma matches_blank_iff:
  "matches (Rep Space 1 # p) m caps \<longleftrightarrow> (\<exists>ws m'. m = ws @ m' \<and> blank ws \<and> matches p m' caps)"
  unfolding matches_Rep_iff blank_def
  by (auto simp: list_all_iff Suc_le_eq)

lemma matches_number_iff:
  "matches (Cap NumChar 1 # p) m caps \<longleftrightarrow>
     (\<exists>num m' caps'. m = num @ m' \<and> caps = num # caps' \<and> number_text num \<and> matches p m' caps')"
  unfolding matches_Cap_iff number_text_def
  by (auto simp: Suc_le_eq)

lemma matches_line_iff:
  "matches (Rep AnyButNewline 0 # p) m caps \<longleftrightarrow>
     (\<exists>l m'. m = l @ m' \<and> one_line l \<and> matches p m' caps)"
  unfolding matches_Rep_iff one_line_def
  by (auto simp: list_all_iff)

lemma matches_digits_iff:
  "matches (Cap Digit 1 # p) m caps \<longleftrightarrow>
     (\<exists>ds m' caps'. m = ds @ m' \<and> caps = ds # caps' \<and> int_literal ds \<and> matches p m' caps')"
  unfolding matches_Cap_iff int_literal_def
  by (auto simp: list_all_iff Suc_le_eq)

lemma matches_spaces_iff:
  "matches (Rep Space 0 # p) m caps \<longleftrightarrow>
     (\<exists>ws m'. m = ws @ m' \<and> list_all is_space ws \<and> matches p m' caps)"
  unfolding matches_Rep_iff
  by (auto simp: list_all_iff)

lemmas shape_iffs = matches_lits_iff matches_blank_iff matches_number_iff matches_line_iff
  matches_digits_iff matches_spaces_iff matches_Lit_iff matches_Nil_iff

lemma matches_time_pat:
  "matches time_pat m caps \<longleftrightarrow>
     (\<exists>ws1 c ws2 w ws3 t. m = ''Time:'' @ ws1 @ c @ ws2 @ w @ ws3 @ t \<and> caps = [c, w, t] \<and>
        blank ws1 \<and> number_text c \<and> blank ws2 \<and> number_text w \<and> blank ws3 \<and> number_text t)"
proof
  assume "matches time_pat m caps"
  then obtain ws1 c ws2 w ws3 t where
    "m = ''Time:'' @ ws1 @ c @ ws2 @ w @ ws3 @ t @ []" "caps = [c, w, t]"
    "blank ws1" "number_text c" "blank ws2" "number_text w" "blank ws3" "number_text t"
    unfolding time_pat_def shape_iffs by (elim exE conjE) (simp only:)
  then show "\<exists>ws1 c ws2 w ws3 t. m = ''Time:'' @ ws1 @ c @ ws2 @ w @ ws3 @ t \<and> caps = [c, w, t] \<and>
        blank ws1 \<and> number_text c \<and> blank ws2 \<and> number_text w \<and> blank ws3 \<and> number_text t"
    by (intro exI[of _ ws1] exI[of _ c] exI[of _ ws2] exI[of _ w] exI[of _ ws3] exI[of _ t]) simp
next
  assume "\<exists>ws1 c ws2 w ws3 t. m = ''Time:'' @ ws1 @ c @ ws2 @ w @ ws3 @ t \<and> caps = [c, w, t] \<and>
        blank ws1 \<and> number_text c \<and> blank ws2 \<and> number_text w \<and> blank ws3 \<and> number_text t"
  then obtain ws1 c ws2 w ws3 t where
    m: "m = ''Time:'' @ ws1 @ c @ ws2 @ w @ ws3 @ t" and caps: "caps = [c, w, t]" and
    b: "blank ws1" "number_text c" "blank ws2" "number_text w" "blank ws3" "number_text t"
    by blast
  have "matches [] [] []" by (rule m_Nil)
  with b(6) have "matches [Cap NumChar 1] (t @ []) [t]"
    unfolding matches_number_iff by blast
  with b(5) have "matches [Rep Space 1, Cap NumChar 1] (ws3 @ t @ []) [t]"
    unfolding matches_blank_iff[of "[Cap NumChar 1]"] by blast
  with b(4) have "matches [Cap NumChar 1, Rep Space 1, Cap NumChar 1] (w @ ws3 @ t @ []) [w, t]"
    unfolding matches_number_iff[of "[Rep Space 1, Cap NumChar 1]"] by blast
  with b(3) have "matches [Rep Space 1, Cap NumChar 1, Rep Space 1, Cap NumChar 1]
      (ws2 @ w @ ws3 @ t @ []) [w, t]"
    unfolding matches_blank_iff[of "[Cap NumChar 1, Rep Space 1, Cap NumChar 1]"] by blast
  with b(2) have "matches [Cap NumChar 1, Rep Space 1, Cap NumChar 1, Rep Space 1, Cap NumChar 1]
      (c @ ws2 @ w @ ws3 @ t @ []) [c, w, t]"
    unfolding matches_number_iff[of "[Rep Space 1, Cap NumChar 1, Rep Space 1, Cap NumChar 1]"] by blast
  with b(1) have "matches [Rep Space 1, Cap NumChar 1, Rep Space 1, Cap NumChar 1, Rep Space 1, Cap NumChar 1]
      (ws1 @ c @ ws2 @ w @ ws3 @ t @ []) [c, w, t]"
    unfolding matches_blank_iff[of "[Cap NumChar 1, Rep Space 1, Cap NumChar 1, Rep Space 1, Cap NumChar 1]"]
    by blast
  then show "matches time_pat m caps"
    unfolding time_pat_def matches_lits_iff m caps by simp
qed


lemma matches_finished_pat:
  "matches finished_pat m caps \<longleftrightarrow>
     (\<exists>l1 l2 ws1 num ws2. m = ''Finished mdrun'' @ l1 @ [NL] @ l2 @ ''wall'' @ ws1 @ num @ ws2 @ ''s'' \<and>
        caps = [num] \<and> one_line l1 \<and> one_line l2 \<and> blank ws1 \<and> number_text num \<and> blank ws2)"
proof
  assume "matches finished_pat m caps"
  then obtain l1 l2 ws1 num ws2 where
    "m = ''Finished mdrun'' @ l1 @ NL # l2 @ ''wall'' @ ws1 @ num @ ws2 @ [CHR ''s'']" "caps = [num]"
    "one_line l1" "one_line l2" "blank ws1" "number_text num" "blank ws2"
    unfolding finished_pat_def shape_iffs append.simps by (elim exE conjE) (simp only:)
  then show "\<exists>l1 l2 ws1 num ws2. m = ''Finished mdrun'' @ l1 @ [NL] @ l2 @ ''wall'' @ ws1 @ num @ ws2 @ ''s'' \<and>
        caps = [num] \<and> one_line l1 \<and> one_line l2 \<and> blank ws1 \<and> number_text num \<and> blank ws2"
    by (intro exI[of _ l1] exI[of _ l2] exI[of _ ws1] exI[of _ num] exI[of _ ws2]) simp
next
  assume "\<exists>l1 l2 ws1 num ws2. m = ''Finished mdrun'' @ l1 @ [NL] @ l2 @ ''wall'' @ ws1 @ num @ ws2 @ ''s'' \<and>
        caps = [num] \<and> one_line l1 \<and> one_line l2 \<and> blank ws1 \<and> number_text num \<and> blank ws2"
  then obtain l1 l2 ws1 num ws2 where
    m: "m = ''Finished mdrun'' @ l1 @ [NL] @ l2 @ ''wall'' @ ws1 @ num @ ws2 @ ''s''" and
    caps: "caps = [num]" and
    b: "one_line l1" "one_line l2" "blank ws1" "number_text num" "blank ws2"
    by blast
  have "matches [Lit (CHR ''s'')] ''s'' []"
    by (simp add: matches_Lit_iff matches_Nil_iff)
  with b(5) have "matches [Rep Space 1, Lit (CHR ''s'')] (ws2 @ ''s'') []"
    unfolding matches_blank_iff[of "[Lit (CHR ''s'')]"] by blast
  with b(4) have "matches [Cap NumChar 1, Rep Space 1, Lit (CHR ''s'')] (num @ ws2 @ ''s'') [num]"
    unfolding matches_number_iff[of "[Rep Space 1, Lit (CHR ''s'')]"] by blast
  with b(3) have "matches [Rep Space 1, Cap NumChar 1, Rep Space 1, Lit (CHR ''s'')]
      (ws1 @ num @ ws2 @ ''s'') [num]"
    unfolding matches_blank_iff[of "[Cap NumChar 1, Rep Space 1, Lit (CHR ''s'')]"] by blast
  then have "matches (lits ''wall'' @ [Rep Space 1, Cap NumChar 1, Rep Space 1, Lit (CHR ''s'')])
      (''wall'' @ ws1 @ num @ ws2 @ ''s'') [num]"
    unfolding matches_lits_iff by blast
  with b(2) have "matches (Rep AnyButNewline 0 #
        lits ''wall'' @ [Rep Space 1, Cap NumChar 1, Rep Space 1, Lit (CHR ''s'')])
      (l2 @ ''wall'' @ ws1 @ num @ ws2 @ ''s'') [num]"
    unfolding matches_line_iff[of "lits ''wall'' @ [Rep Space 1, Cap NumChar 1, Rep Space 1, Lit (CHR ''s'')]"]
    by blast
  then have "matches (Lit NL # Rep AnyButNewline 0 #
        lits ''wall'' @ [Rep Space 1, Cap NumChar 1, Rep Space 1, Lit (CHR ''s'')])
      (NL # l2 @ ''wall'' @ ws1 @ num @ ws2 @ ''s'') [num]"
    by (rule m_Lit)
  with b(1) have "matches (Rep AnyButNewline 0 # Lit NL # Rep AnyButNewline 0 #
        lits ''wall'' @ [Rep Space 1, Cap NumChar 1, Rep Space 1, Lit (CHR ''s'')])
      (l1 @ NL # l2 @ ''wall'' @ ws1 @ num @ ws2 @ ''s'') [num]"
    unfolding matches_line_iff[of "Lit NL # Rep AnyButNewline 0 #
        lits ''wall'' @ [Rep Space 1, Cap NumChar 1, Rep Space 1, Lit (CHR ''s'')]"]
    by blast
  then have "matches (lits ''Finished mdrun'' @ Rep AnyButNewline 0 # Lit NL # Rep AnyButNewline 0 #
        lits ''wall'' @ [Rep Space 1, Cap NumChar 1, Rep Space 1, Lit (CHR ''s'')])
      (''Finished mdrun'' @ l1 @ NL # l2 @ ''wall'' @ ws1 @ num @ ws2 @ ''s'') [num]"
    unfolding matches_lits_iff[of "''Finished mdrun''"] by blast
  then show "matches finished_pat m caps"
    unfolding finished_pat_def m caps by simp
qed

lemma matches_name_digits:
  "matches (lits l @ [Cap Digit 1]) m caps \<longleftrightarrow> (\<exists>ds. m = l @ ds \<and> caps = [ds] \<and> int_literal ds)"
  unfolding matches_lits_iff matches_digits_iff matches_Nil_iff by auto

lemma matches_cpubind_pat:
  "matches cpubind_pat m caps \<longleftrightarrow>
     (\<exists>ws ds. m = ''cpubind:'' @ ws @ ds \<and> caps = [ds] \<and> list_all is_space ws \<and> int_literal ds)"
  unfolding cpubind_pat_def matches_lits_iff matches_spaces_iff matches_digits_iff matches_Nil_iff
  by auto

lemma occursI: "s = pre @ m @ post \<Longrightarrow> matches p m caps \<Longrightarrow> occurs p s"
  unfolding occurs_def by (intro exI conjI)

lemma occursE:
  assumes "occurs p s"
  obtains pre m post caps where "s = pre @ m @ post" and "matches p m caps"
  using assms unfolding occurs_def by (elim exE conjE)

lemma occurs_time_pat: "occurs time_pat content \<longleftrightarrow> has_timing_line content"
proof
  assume "occurs time_pat content"
  then obtain pre m post caps where s: "content = pre @ m @ post" and mm: "matches time_pat m caps"
    by (rule occursE)
  from mm[unfolded matches_time_pat] obtain ws1 c ws2 w ws3 t where
    m: "m = ''Time:'' @ ws1 @ c @ ws2 @ w @ ws3 @ t" and
    b: "blank ws1" "number_text c" "blank ws2" "number_text w" "blank ws3" "number_text t"
    by (elim exE conjE)
  have "content = pre @ ''Time:'' @ ws1 @ c @ ws2 @ w @ ws3 @ t @ post"
    unfolding s m by simp
  then show "has_timing_line content"
    unfolding has_timing_line_def
    by (intro exI[of _ pre] exI[of _ ws1] exI[of _ c] exI[of _ ws2] exI[of _ w] exI[of _ ws3]
        exI[of _ t] exI[of _ post] conjI b)
next
  assume "has_timing_line content"
  then obtain pre ws1 c ws2 w ws3 t post where
    s: "content = pre @ ''Time:'' @ ws1 @ c @ ws2 @ w @ ws3 @ t @ post" and
    b: "blank ws1" "number_text c" "blank ws2" "number_text w" "blank ws3" "number_text t"
    unfolding has_timing_line_def by (elim exE conjE)
  have "matches time_pat (''Time:'' @ ws1 @ c @ ws2 @ w @ ws3 @ t) [c, w, t]"
    unfolding matches_time_pat
    by (intro exI[of _ ws1] exI[of _ c] exI[of _ ws2] exI[of _ w] exI[of _ ws3] exI[of _ t]
        conjI refl b)
  moreover have "content = pre @ (''Time:'' @ ws1 @ c @ ws2 @ w @ ws3 @ t) @ post"
    unfolding s by simp
  ultimately show "occurs time_pat content" by (intro occursI)
qed

lemma occurs_finished_pat: "occurs finished_pat content \<longleftrightarrow> has_finished_pair content"
proof
  assume "occurs finished_pat content"
  then obtain pre m post caps where s: "content = pre @ m @ post" and mm: "matches finished_pat m caps"
    by (rule occursE)
  from mm[unfolded matches_finished_pat] obtain l1 l2 ws1 num ws2 where
    m: "m = ''Finished mdrun'' @ l1 @ [NL] @ l2 @ ''wall'' @ ws1 @ num @ ws2 @ ''s''" and
    b: "one_line l1" "one_line l2" "blank ws1" "number_text num" "blank ws2"
    by (elim exE conjE)
  have "content = pre @ ''Finished mdrun'' @ l1 @ [NL] @ l2 @ ''wall'' @ ws1 @ num @ ws2 @ ''s'' @ post"
    unfolding s m by simp
  then show "has_finished_pair content"
    unfolding has_finished_pair_def
    by (intro exI[of _ pre] exI[of _ l1] exI[of _ l2] exI[of _ ws1] exI[of _ num] exI[of _ ws2]
        exI[of _ post] conjI b)
next
  assume "has_finished_pair content"
  then obtain pre l1 l2 ws1 num ws2 post where
    s: "content = pre @ ''Finished mdrun'' @ l1 @ [NL] @ l2 @ ''wall'' @ ws1 @ num @ ws2 @ ''s'' @ post" and
    b: "one_line l1" "one_line l2" "blank ws1" "number_text num" "blank ws2"
    unfolding has_finished_pair_def by (elim exE conjE)
  have "matches finished_pat (''Finished mdrun'' @ l1 @ [NL] @ l2 @ ''wall'' @ ws1 @ num @ ws2 @ ''s'') [num]"
    unfolding matches_finished_pat
    by (intro exI[of _ l1] exI[of _ l2] exI[of _ ws1] exI[of _ num] exI[of _ ws2] conjI refl b)
  moreover have "content =
      pre @ (''Finished mdrun'' @ l1 @ [NL] @ l2 @ ''wall'' @ ws1 @ num @ ws2 @ ''s'') @ post"
    unfolding s by simp
  ultimately show "occurs finished_pat content" by (intro occursI)
qed

lemma occurs_task_name_pat: "occurs task_name_pat name \<longleftrightarrow> has_task_digits name"
proof
  assume "occurs task_name_pat name"
  then obtain pre m post caps where s: "name = pre @ m @ post" and mm: "matches task_name_pat m caps"
    by (rule occursE)
  from mm[unfolded task_name_pat_def matches_name_digits] obtain ds where
    m: "m = ''shared_task'' @ ds" and b: "int_literal ds"
    by (elim exE conjE)
  have "name = pre @ ''shared_task'' @ ds @ post" unfolding s m by simp
  then show "has_task_digits name"
    unfolding has_task_digits_def by (intro exI[of _ pre] exI[of _ ds] exI[of _ post] conjI b)
next
  assume "has_task_digits name"
  then obtain pre ds post where s: "name = pre @ ''shared_task'' @ ds @ post" and b: "int_literal ds"
    unfolding has_task_digits_def by (elim exE conjE)
  have "matches task_name_pat (''shared_task'' @ ds) [ds]"
    unfolding task_name_pat_def matches_name_digits by (intro exI[of _ ds] conjI refl b)
  moreover have "name = pre @ (''shared_task'' @ ds) @ post" unfolding s by simp
  ultimately show "occurs task_name_pat name" by (intro occursI)
qed

lemma occurs_cpubind_pat: "occurs cpubind_pat content \<longleftrightarrow> has_cpubind content"
proof
  assume "occurs cpubind_pat content"
  then obtain pre m post caps where s: "content = pre @ m @ post" and mm: "matches cpubind_pat m caps"
    by (rule occursE)
  from mm[unfolded matches_cpubind_pat] obtain ws ds where
    m: "m = ''cpubind:'' @ ws @ ds" and b: "list_all is_space ws" "int_literal ds"
    by (elim exE conjE)
  have "content = pre @ ''cpubind:'' @ ws @ ds @ post" unfolding s m by simp
  then show "has_cpubind content"
    unfolding has_cpubind_def
    by (intro exI[of _ pre] exI[of _ ws] exI[of _ ds] exI[of _ post] conjI b)
next
  assume "has_cpubind content"
  then obtain pre ws ds post where s: "content = pre @ ''cpubind:'' @ ws @ ds @ post"
    and b: "list_all is_space ws" "int_literal ds"
    unfolding has_cpubind_def by (elim exE conjE)
  have "matches cpubind_pat (''cpubind:'' @ ws @ ds) [ds]"
    unfolding matches_cpubind_pat by (intro exI[of _ ws] exI[of _ ds] conjI refl b)
  moreover have "content = pre @ (''cpubind:'' @ ws @ ds) @ post" unfolding s by simp
  ultimately show "occurs cpubind_pat content" by (intro occursI)
qed

lemma matchp_Cap_last:
  assumes "n \<le> run_length c s"
  shows "matchp [Cap c n] s caps = Some (caps @ [take (run_length c s) s])"
  using assms by (simp add: countdown_first)

lemma matchp_time_pat:
  assumes "blank ws1" "number_text c" "blank ws2" "number_text w" "blank ws3" "number_text t"
  shows "\<exists>t'. matchp time_pat (''Time:'' @ ws1 @ c @ ws2 @ w @ ws3 @ t @ post) [] = Some [c, w, t']"
proof -
  from assms have ne: "ws1 \<noteq> []" "c \<noteq> []" "ws2 \<noteq> []" "w \<noteq> []" "ws3 \<noteq> []" "t \<noteq> []"
    and sp: "list_all is_space ws1" "list_all is_space ws2" "list_all is_space ws3"
    and nu: "list_all (in_class NumChar) c" "list_all (in_class NumChar) w" "list_all (in_class NumChar) t"
    unfolding blank_def number_text_def by simp_all
  let ?t' = "take (run_length NumChar (t @ post)) (t @ post)"
  have "1 \<le> run_length NumChar (t @ post)"
    using run_length_ge[OF nu(3), of post] ne(6) by (cases t) simp_all
  then have 6: "matchp [Cap NumChar 1] (t @ post) [c, w] = Some [c, w, ?t']"
    using matchp_Cap_last[of 1 NumChar "t @ post" "[c, w]"] by simp
  have l: "list_all (in_class Space) ws1" "list_all (in_class Space) ws2"
    "list_all (in_class Space) ws3"
    using sp by (simp_all add: list_all_iff)
  have n: "1 \<le> length ws1" "1 \<le> length c" "1 \<le> length ws2" "1 \<le> length w" "1 \<le> length ws3"
    using ne by (simp_all add: Suc_le_eq)
  have 5: "matchp [Rep Space 1, Cap NumChar 1] (ws3 @ t @ post) [c, w] = Some [c, w, ?t']"
    by (rule matchp_Rep_greedy[OF l(3) NumChar_stops_Space[OF ne(6) nu(3)] n(5) 6])
  have "matchp [Rep Space 1, Cap NumChar 1] (ws3 @ t @ post) ([c] @ [w]) = Some [c, w, ?t']"
    using 5 by (simp only: append.simps)
  then have 4: "matchp [Cap NumChar 1, Rep Space 1, Cap NumChar 1] (w @ ws3 @ t @ post) [c] =
      Some [c, w, ?t']"
    by (rule matchp_Cap_greedy[OF nu(2) space_stops_NumChar[OF ne(5) sp(3)] n(4)])
  have 3: "matchp [Rep Space 1, Cap NumChar 1, Rep Space 1, Cap NumChar 1]
      (ws2 @ w @ ws3 @ t @ post) [c] = Some [c, w, ?t']"
    by (rule matchp_Rep_greedy[OF l(2) NumChar_stops_Space[OF ne(4) nu(2)] n(3) 4])
  have "matchp [Rep Space 1, Cap NumChar 1, Rep Space 1, Cap NumChar 1]
      (ws2 @ w @ ws3 @ t @ post) ([] @ [c]) = Some [c, w, ?t']"
    using 3 by (simp only: append.simps)
  then have 2: "matchp [Cap NumChar 1, Rep Space 1, Cap NumChar 1, Rep Space 1, Cap NumChar 1]
      (c @ ws2 @ w @ ws3 @ t @ post) [] = Some [c, w, ?t']"
    by (rule matchp_Cap_greedy[OF nu(1) space_stops_NumChar[OF ne(3) sp(2)] n(2)])
  have 1: "matchp [Rep Space 1, Cap NumChar 1, Rep Space 1, Cap NumChar 1, Rep Space 1, Cap NumChar 1]
      (ws1 @ c @ ws2 @ w @ ws3 @ t @ post) [] = Some [c, w, ?t']"
    by (rule matchp_Rep_greedy[OF l(1) NumChar_stops_Space[OF ne(2) nu(1)] n(1) 2])
  have "matchp time_pat (''Time:'' @ ws1 @ c @ ws2 @ w @ ws3 @ t @ post) [] =
      matchp [Rep Space 1, Cap NumChar 1, Rep Space 1, Cap NumChar 1, Rep Space 1, Cap NumChar 1]
        (ws1 @ c @ ws2 @ w @ ws3 @ t @ post) []"
    unfolding time_pat_def by (rule matchp_lits)
  with 1 have "matchp time_pat (''Time:'' @ ws1 @ c @ ws2 @ w @ ws3 @ t @ post) [] = Some [c, w, ?t']"
    by (simp only:)
  then show ?thesis ..
qed

lemma search_time_pat:
  assumes "blank ws1" "number_text c" "blank ws2" "number_text w" "blank ws3" "number_text t"
    and "first_at time_pat pre (''Time:'' @ ws1 @ c @ ws2 @ w @ ws3 @ t @ post)"
  shows "\<exists>t'. search time_pat (pre @ ''Time:'' @ ws1 @ c @ ws2 @ w @ ws3 @ t @ post) = Some [c, w, t']"
proof -
  from matchp_time_pat[OF assms(1-6), of post] obtain t' where
    "matchp time_pat (''Time:'' @ ws1 @ c @ ws2 @ w @ ws3 @ t @ post) [] = Some [c, w, t']" ..
  from search_first_at[OF assms(7) this] show ?thesis ..
qed

section \<open>Claims\<close>

text \<open>
  Claim C1, as amended.  For a record that the extractor returns: when the text is
  \<open>pre\<close>, then \<^verbatim>\<open>Performance:\<close>, white space, a run \<open>num\<close> of digits and dots, white space
  and \<^verbatim>\<open>ns/day\<close>, and no match of the pattern \<^verbatim>\<open>Performance:\s+([\d.]+)\s+ns/day\<close> starts
  inside \<open>pre\<close>, then \<open>num\<close> is a float literal and \<open>performance_ns_day\<close> is its value: the
  number of the first (leftmost) match.  When that pattern occurs nowhere and the text is
  \<open>pre\<close>, a run \<open>num\<close> of digits and dots, white space and \<^verbatim>\<open>ns/day\<close>, with no match of
  \<^verbatim>\<open>([\d.]+)\s+ns/day\<close> starting inside \<open>pre\<close>, \<open>performance_ns_day\<close> is the value of \<open>num\<close>.
  And whenever one of the two patterns is the one used and occurs, the value is that of
  the group of a leftmost match of it.
\<close>

theorem performance_first_match:
  assumes "extract_record name content = Inr r"
  shows "(\<forall>pre ws1 num ws2 post.
            content = pre @ ''Performance:'' @ ws1 @ num @ ws2 @ ''ns/day'' @ post \<and>
            blank ws1 \<and> number_text num \<and> blank ws2 \<and>
            first_at perf_pat pre (''Performance:'' @ ws1 @ num @ ws2 @ ''ns/day'' @ post) \<longrightarrow>
              float_literal num \<and> performance_ns_day r = Some (float_value num)) \<and>
         (\<forall>pre num ws post.
            \<not> occurs perf_pat content \<and> content = pre @ num @ ws @ ''ns/day'' @ post \<and>
            number_text num \<and> blank ws \<and>
            first_at perf_alt_pat pre (num @ ws @ ''ns/day'' @ post) \<longrightarrow>
              float_literal num \<and> performance_ns_day r = Some (float_value num)) \<and>
         (occurs perf_pat content \<longrightarrow>
            (\<exists>m. search perf_pat content = Some m \<and> leftmost_match perf_pat content m \<and>
                 performance_ns_day r = Some (float_value (match_group m 1)))) \<and>
         (\<not> occurs perf_pat content \<and> occurs perf_alt_pat content \<longrightarrow>
            (\<exists>m. search perf_alt_pat content = Some m \<and> leftmost_match perf_alt_pat content m \<and>
                 performance_ns_day r = Some (float_value (match_group m 1))))"
proof (intro conjI impI allI; (elim conjE)?)
  note p = extract_record_performance[OF assms]
  note c = extract_record_literals[OF assms]
  {
    fix pre ws1 num ws2 post
    assume eq: "content = pre @ ''Performance:'' @ ws1 @ num @ ws2 @ ''ns/day'' @ post"
      and b: "blank ws1" "number_text num" "blank ws2"
      and f: "first_at perf_pat pre (''Performance:'' @ ws1 @ num @ ws2 @ ''ns/day'' @ post)"
    have m: "search perf_pat content = Some [num]"
      unfolding eq using b f by (rule search_perf_pat)
    have "float_literal num" using c m by (simp add: captures_convert_def match_group_def)
    moreover have "performance_ns_day r = Some (float_value num)"
      using p m by (simp add: match_group_def)
    ultimately show "float_literal num" and "performance_ns_day r = Some (float_value num)" .
  }
  {
    fix pre num ws post
    assume no: "\<not> occurs perf_pat content"
      and eq: "content = pre @ num @ ws @ ''ns/day'' @ post"
      and b: "number_text num" "blank ws"
      and f: "first_at perf_alt_pat pre (num @ ws @ ''ns/day'' @ post)"
    from no have n: "search perf_pat content = None" by (simp add: search_None_iff)
    have m: "search perf_alt_pat content = Some [num]"
      unfolding eq using b f by (rule search_perf_alt_pat)
    have "float_literal num" using c n m by (simp add: captures_convert_def match_group_def)
    moreover have "performance_ns_day r = Some (float_value num)"
      using p n m by (simp add: match_group_def)
    ultimately show "float_literal num" and "performance_ns_day r = Some (float_value num)" .
  }
  {
    assume "occurs perf_pat content"
    then obtain m where m: "search perf_pat content = Some m" using occurs_search by blast
    have "performance_ns_day r = Some (float_value (match_group m 1))" using p m by simp
    then show "\<exists>m. search perf_pat content = Some m \<and> leftmost_match perf_pat content m \<and>
                 performance_ns_day r = Some (float_value (match_group m 1))"
      using m search_leftmost[OF m] by blast
  }
  {
    assume "\<not> occurs perf_pat content" and "occurs perf_alt_pat content"
    then have n: "search perf_pat content = None" by (simp add: search_None_iff)
    from \<open>occurs perf_alt_pat content\<close>
    obtain m where m: "search perf_alt_pat content = Some m" using occurs_search by blast
    have "performance_ns_day r = Some (float_value (match_group m 1))" using p n m by simp
    then show "\<exists>m. search perf_alt_pat content = Some m \<and> leftmost_match perf_alt_pat content m \<and>
                 performance_ns_day r = Some (float_value (match_group m 1))"
      using m search_leftmost[OF m] by blast
  }
qed

text \<open>
  The theorem at a text with the line \<^verbatim>\<open>Performance:    12.345    ns/day\<close> after a
  header line, which gives 12.345, and at a text with \<^verbatim>\<open>7.5 ns/day\<close> and no
  \<^verbatim>\<open>Performance:\<close>, which gives 7.5.
\<close>

theorem performance_first_match_witness:
  "blank ''    '' \<and> number_text ''12.345'' \<and>
   first_at perf_pat (''GROMACS'' @ [NL]) (''Performance:'' @ ''    '' @ ''12.345'' @ ''    '' @ ''ns/day'' @ []) \<and>
   extract_record ''exclusive_numa0.log''
     ((''GROMACS'' @ [NL]) @ ''Performance:'' @ ''    '' @ ''12.345'' @ ''    '' @ ''ns/day'' @ []) =
     Inr \<lparr>file_name = ''exclusive_numa0.log'', category_of = exclusive, numa_node = Some 0,
          task_id = None, gpu_id = None, performance_ns_day = Some (12345 / 1000),
          wall_time_s = None, core_time_s = None\<rparr> \<and>
   \<not> occurs perf_pat (''run at '' @ ''7.5'' @ '' '' @ ''ns/day'' @ []) \<and>
   number_text ''7.5'' \<and> blank '' '' \<and>
   first_at perf_alt_pat ''run at '' (''7.5'' @ '' '' @ ''ns/day'' @ []) \<and>
   extract_record ''exclusive_numa0.log'' (''run at '' @ ''7.5'' @ '' '' @ ''ns/day'' @ []) =
     Inr \<lparr>file_name = ''exclusive_numa0.log'', category_of = exclusive, numa_node = Some 0,
          task_id = None, gpu_id = None, performance_ns_day = Some (75 / 10),
          wall_time_s = None, core_time_s = None\<rparr>"
proof -
  let ?n = "''exclusive_numa0.log''"
  let ?c1 = "(''GROMACS'' @ [NL]) @ ''Performance:'' @ ''    '' @ ''12.345'' @ ''    '' @ ''ns/day'' @ []"
  let ?c2 = "''run at '' @ ''7.5'' @ '' '' @ ''ns/day'' @ []"
  obtain r1 where e1: "extract_record ?n ?c1 = Inr r1" and
    rest1: "r1 = \<lparr>file_name = ?n, category_of = exclusive, numa_node = Some 0,
          task_id = None, gpu_id = None, performance_ns_day = performance_ns_day r1,
          wall_time_s = None, core_time_s = None\<rparr>"
    by (simp add: extract_defs pattern_defs number_defs)
  obtain r2 where e2: "extract_record ?n ?c2 = Inr r2" and
    rest2: "r2 = \<lparr>file_name = ?n, category_of = exclusive, numa_node = Some 0,
          task_id = None, gpu_id = None, performance_ns_day = performance_ns_day r2,
          wall_time_s = None, core_time_s = None\<rparr>"
    by (simp add: extract_defs pattern_defs number_defs)
  have b: "blank ''    ''" "number_text ''12.345''" "number_text ''7.5''" "blank '' ''"
    by (simp_all add: blank_def number_text_def is_space_def is_digit_def)
  have f1: "first_at perf_pat (''GROMACS'' @ [NL])
      (''Performance:'' @ ''    '' @ ''12.345'' @ ''    '' @ ''ns/day'' @ [])"
    unfolding append.simps
    by (intro first_at_Cons first_at_Nil) (simp_all add: pattern_defs)
  have f2: "first_at perf_alt_pat ''run at '' (''7.5'' @ '' '' @ ''ns/day'' @ [])"
    by (intro first_at_Cons first_at_Nil) (simp_all add: pattern_defs)
  have n2: "\<not> occurs perf_pat ?c2"
    by (rule iffD1[OF search_None_iff]) (simp add: pattern_defs)
  have v: "float_value ''12.345'' = 12345 / 1000" "float_value ''7.5'' = 75 / 10"
    by (simp_all add: number_defs)
  note pfm1 = performance_first_match[OF e1]
  from pfm1 b f1 have "performance_ns_day r1 = Some (float_value ''12.345'')" by blast
  with v have p1: "performance_ns_day r1 = Some (12345 / 1000)" by simp
  note pfm2 = performance_first_match[OF e2]
  from pfm2 b f2 n2 have "performance_ns_day r2 = Some (float_value ''7.5'')" by blast
  with v have p2: "performance_ns_day r2 = Some (75 / 10)" by simp
  from e1 rest1 p1 have "extract_record ?n ?c1 =
     Inr \<lparr>file_name = ?n, category_of = exclusive, numa_node = Some 0,
          task_id = None, gpu_id = None, performance_ns_day = Some (12345 / 1000),
          wall_time_s = None, core_time_s = None\<rparr>" by simp
  moreover from e2 rest2 p2 have "extract_record ?n ?c2 =
     Inr \<lparr>file_name = ?n, category_of = exclusive, numa_node = Some 0,
          task_id = None, gpu_id = None, performance_ns_day = Some (75 / 10),
          wall_time_s = None, core_time_s = None\<rparr>" by simp
  ultimately show ?thesis using b f1 f2 n2 by (intro conjI)
qed

text \<open>
  Claim C1 as stated fails: the line \<^verbatim>\<open>Performance:    12.345    ns/day\<close> matches with
  the number 12.345, and a text that contains it after the line
  \<^verbatim>\<open>Performance: 1.0 ns/day\<close> yields 1.0, the number of the first match.
\<close>

theorem performance_counterexample:
  "search perf_pat ''Performance:    12.345    ns/day'' = Some [''12.345''] \<and>
   extract_record ''exclusive_numa0.log''
     (''Performance: 1.0 ns/day'' @ [NL] @ ''Performance:    12.345    ns/day'') =
     Inr \<lparr>file_name = ''exclusive_numa0.log'', category_of = exclusive, numa_node = Some 0,
          task_id = None, gpu_id = None, performance_ns_day = Some 1,
          wall_time_s = None, core_time_s = None\<rparr> \<and>
   (1 :: rat) \<noteq> 12345 / 1000"
  by (simp add: extract_defs pattern_defs number_defs)

text \<open>
  Claim C2, as amended.  For a record that the extractor returns.  When the text has a
  timing line (\<^verbatim>\<open>Time:\<close> followed by three numbers, each after white space) and a
  \<^verbatim>\<open>Finished mdrun\<close> line whose next line has \<^verbatim>\<open>wall\<close>, a number and \<^verbatim>\<open>s\<close>, then
  \<open>core_time_s\<close> is the first number of the first (leftmost) timing match and
  \<open>wall_time_s\<close> is the number of the first \<^verbatim>\<open>Finished mdrun\<close> match.  And when the
  text is \<^verbatim>\<open>Time:\<close>, three numbers \<open>c\<close>, \<open>w\<close>, \<open>t\<close> apart by white space, and that is
  the first place where the timing pattern matches, then \<open>core_time_s\<close> is the value
  of \<open>c\<close>, and \<open>wall_time_s\<close> is the value of \<open>w\<close> unless the \<^verbatim>\<open>Finished mdrun\<close> pair
  is in the text.
\<close>

theorem timing_override:
  assumes "extract_record name content = Inr r"
  shows "(has_timing_line content \<and> has_finished_pair content \<longrightarrow>
           (\<exists>t f. search time_pat content = Some t \<and> leftmost_match time_pat content t \<and>
                  search finished_pat content = Some f \<and> leftmost_match finished_pat content f \<and>
                  core_time_s r = Some (float_value (match_group t 1)) \<and>
                  wall_time_s r = Some (float_value (match_group f 1)))) \<and>
         (\<forall>pre ws1 c ws2 w ws3 t post.
            content = pre @ ''Time:'' @ ws1 @ c @ ws2 @ w @ ws3 @ t @ post \<and>
            blank ws1 \<and> number_text c \<and> blank ws2 \<and> number_text w \<and> blank ws3 \<and> number_text t \<and>
            first_at time_pat pre (''Time:'' @ ws1 @ c @ ws2 @ w @ ws3 @ t @ post) \<longrightarrow>
              core_time_s r = Some (float_value c) \<and>
              (\<not> has_finished_pair content \<longrightarrow> wall_time_s r = Some (float_value w)))"
proof (intro conjI impI allI; (elim conjE)?)
  note w = extract_record_times[OF assms]
  {
    assume "has_timing_line content" "has_finished_pair content"
    then have "occurs time_pat content" "occurs finished_pat content"
      by (simp_all add: occurs_time_pat occurs_finished_pat)
    then obtain t f where t: "search time_pat content = Some t" and f: "search finished_pat content = Some f"
      using occurs_search by blast
    have "core_time_s r = Some (float_value (match_group t 1))" using w(2) t by simp
    moreover have "wall_time_s r = Some (float_value (match_group f 1))" using w(1) f by simp
    ultimately show "\<exists>t f. search time_pat content = Some t \<and> leftmost_match time_pat content t \<and>
                  search finished_pat content = Some f \<and> leftmost_match finished_pat content f \<and>
                  core_time_s r = Some (float_value (match_group t 1)) \<and>
                  wall_time_s r = Some (float_value (match_group f 1))"
      using t f search_leftmost[OF t] search_leftmost[OF f] by blast
  }
  {
    fix pre ws1 c ws2 w' ws3 t post
    assume eq: "content = pre @ ''Time:'' @ ws1 @ c @ ws2 @ w' @ ws3 @ t @ post"
      and b: "blank ws1" "number_text c" "blank ws2" "number_text w'" "blank ws3" "number_text t"
      and f: "first_at time_pat pre (''Time:'' @ ws1 @ c @ ws2 @ w' @ ws3 @ t @ post)"
    from search_time_pat[OF b f] obtain t' where m: "search time_pat content = Some [c, w', t']"
      unfolding eq ..
    show "core_time_s r = Some (float_value c)"
      using w(2) m by (simp add: match_group_def)
    assume "\<not> has_finished_pair content"
    then have "search finished_pat content = None"
      by (simp add: search_None_iff occurs_finished_pat)
    then show "wall_time_s r = Some (float_value w')"
      using w(1) m by (simp add: match_group_def)
  }
qed

text \<open>
  The theorem at the timing line \<^verbatim>\<open>Time:  10.0  20.0  5.0\<close> followed by the lines
  \<^verbatim>\<open>Finished mdrun\<close> and \<^verbatim>\<open>wall 25.0 s\<close>: the wall time is 25.0, the core time 10.0;
  and at the timing line alone: the wall time is 20.0, the core time 10.0.
\<close>

theorem timing_override_witness:
  "has_timing_line (''Time:  10.0  20.0  5.0'' @ [NL] @ ''Finished mdrun'' @ [NL] @ ''wall 25.0 s'') \<and>
   has_finished_pair (''Time:  10.0  20.0  5.0'' @ [NL] @ ''Finished mdrun'' @ [NL] @ ''wall 25.0 s'') \<and>
   extract_record ''exclusive_numa0.log''
     (''Time:  10.0  20.0  5.0'' @ [NL] @ ''Finished mdrun'' @ [NL] @ ''wall 25.0 s'') =
     Inr \<lparr>file_name = ''exclusive_numa0.log'', category_of = exclusive, numa_node = Some 0,
          task_id = None, gpu_id = None, performance_ns_day = None,
          wall_time_s = Some 25, core_time_s = Some 10\<rparr> \<and>
   blank ''  '' \<and> number_text ''10.0'' \<and> number_text ''20.0'' \<and> number_text ''5.0'' \<and>
   first_at time_pat [] (''Time:'' @ ''  '' @ ''10.0'' @ ''  '' @ ''20.0'' @ ''  '' @ ''5.0'' @ []) \<and>
   \<not> has_finished_pair ([] @ ''Time:'' @ ''  '' @ ''10.0'' @ ''  '' @ ''20.0'' @ ''  '' @ ''5.0'' @ []) \<and>
   extract_record ''exclusive_numa0.log''
     ([] @ ''Time:'' @ ''  '' @ ''10.0'' @ ''  '' @ ''20.0'' @ ''  '' @ ''5.0'' @ []) =
     Inr \<lparr>file_name = ''exclusive_numa0.log'', category_of = exclusive, numa_node = Some 0,
          task_id = None, gpu_id = None, performance_ns_day = None,
          wall_time_s = Some 20, core_time_s = Some 10\<rparr>"
proof -
  let ?c = "''Time:  10.0  20.0  5.0'' @ [NL] @ ''Finished mdrun'' @ [NL] @ ''wall 25.0 s''"
  let ?d = "[] @ ''Time:'' @ ''  '' @ ''10.0'' @ ''  '' @ ''20.0'' @ ''  '' @ ''5.0'' @ []"
  have e: "extract_record ''exclusive_numa0.log'' ?c =
     Inr \<lparr>file_name = ''exclusive_numa0.log'', category_of = exclusive, numa_node = Some 0,
          task_id = None, gpu_id = None, performance_ns_day = None,
          wall_time_s = Some 25, core_time_s = Some 10\<rparr>"
    by (simp add: extract_defs pattern_defs number_defs)
  obtain r where e2: "extract_record ''exclusive_numa0.log'' ?d = Inr r"
    and rest: "r = \<lparr>file_name = ''exclusive_numa0.log'', category_of = exclusive, numa_node = Some 0,
          task_id = None, gpu_id = None, performance_ns_day = None,
          wall_time_s = wall_time_s r, core_time_s = core_time_s r\<rparr>"
    by (simp add: extract_defs pattern_defs number_defs)
  have o: "has_timing_line ?c" "has_finished_pair ?c"
    unfolding occurs_time_pat[symmetric] occurs_finished_pat[symmetric] occurs_iff_search
    by (simp_all add: pattern_defs)
  have n: "\<not> has_finished_pair ?d"
    unfolding occurs_finished_pat[symmetric]
    by (rule iffD1[OF search_None_iff]) (simp add: pattern_defs)
  have b: "blank ''  ''" "number_text ''10.0''" "number_text ''20.0''" "number_text ''5.0''"
    by (simp_all add: blank_def number_text_def is_space_def is_digit_def)
  have f: "first_at time_pat [] (''Time:'' @ ''  '' @ ''10.0'' @ ''  '' @ ''20.0'' @ ''  '' @ ''5.0'' @ [])"
    by (rule first_at_Nil)
  have v: "float_value ''10.0'' = 10" "float_value ''20.0'' = 20"
    by (simp_all add: number_defs)
  note t = timing_override[OF e2]
  from t b f n have "core_time_s r = Some (float_value ''10.0'') \<and> wall_time_s r = Some (float_value ''20.0'')"
    by blast
  with v rest e2 have e2': "extract_record ''exclusive_numa0.log'' ?d =
     Inr \<lparr>file_name = ''exclusive_numa0.log'', category_of = exclusive, numa_node = Some 0,
          task_id = None, gpu_id = None, performance_ns_day = None,
          wall_time_s = Some 20, core_time_s = Some 10\<rparr>"
    by simp
  note timing_override[OF e]
  with o e b f n e2' show ?thesis by (intro conjI)
qed

text \<open>
  Claim C2 as stated fails on three texts that contain the timing line
  \<^verbatim>\<open>Time:  10.0  20.0  5.0\<close> and a \<^verbatim>\<open>Finished\<close> line followed by a line \<^verbatim>\<open>wall 25.0 s\<close>.
  After an earlier timing line \<^verbatim>\<open>Time:  1.0  2.0  3.0\<close> the core time is 1.0, not 10.0.
  With an empty line between \<^verbatim>\<open>Finished mdrun\<close> and \<^verbatim>\<open>wall 25.0 s\<close> the wall time stays
  20.0, and so it does when the marker line is \<^verbatim>\<open>Finished\<close> without \<^verbatim>\<open>mdrun\<close>.
\<close>

theorem timing_override_counterexample:
  "extract_record ''exclusive_numa0.log''
     (''Time:  1.0  2.0  3.0'' @ [NL] @ ''Time:  10.0  20.0  5.0'' @ [NL] @
      ''Finished mdrun'' @ [NL] @ ''wall 25.0 s'') =
     Inr \<lparr>file_name = ''exclusive_numa0.log'', category_of = exclusive, numa_node = Some 0,
          task_id = None, gpu_id = None, performance_ns_day = None,
          wall_time_s = Some 25, core_time_s = Some 1\<rparr> \<and>
   extract_record ''exclusive_numa0.log''
     (''Time:  10.0  20.0  5.0'' @ [NL] @ ''Finished mdrun'' @ [NL] @ [NL] @ ''wall 25.0 s'') =
     Inr \<lparr>file_name = ''exclusive_numa0.log'', category_of = exclusive, numa_node = Some 0,
          task_id = None, gpu_id = None, performance_ns_day = None,
          wall_time_s = Some 20, core_time_s = Some 10\<rparr> \<and>
   extract_record ''exclusive_numa0.log''
     (''Time:  10.0  20.0  5.0'' @ [NL] @ ''Finished'' @ [NL] @ ''wall 25.0 s'') =
     Inr \<lparr>file_name = ''exclusive_numa0.log'', category_of = exclusive, numa_node = Some 0,
          task_id = None, gpu_id = None, performance_ns_day = None,
          wall_time_s = Some 20, core_time_s = Some 10\<rparr>"
  by (simp add: extract_defs pattern_defs number_defs)




text \<open>
  Claim C4.  For a record that the extractor returns: when the name contains
  \<^verbatim>\<open>exclusive\<close> the category is exclusive and, when \<^verbatim>\<open>exclusive_numa(\d+)\<close> is found in
  the name and the text has no \<^verbatim>\<open>cpubind:\<close> line, \<open>numa_node\<close> is the integer of the
  digits found; otherwise the category is shared and, when \<^verbatim>\<open>shared_task(\d+)\<close> is found
  in the name, \<open>task_id\<close> is the integer of the digits found.  For a name that starts with
  \<^verbatim>\<open>exclusive_numa\<close> or \<^verbatim>\<open>shared_task\<close>, as every collected file does, the digits found
  are the whole run of digits \<open>ds\<close> after that prefix.  In particular
  \<^verbatim>\<open>exclusive_numa3.log\<close> gives exclusive and \<open>numa_node = 3\<close>, and \<^verbatim>\<open>shared_task12.log\<close>
  gives shared and \<open>task_id = 12\<close>.
\<close>

theorem filename_fields:
  assumes "extract_record name content = Inr r"
  shows "(contains name ''exclusive'' \<longrightarrow>
            category_of r = exclusive \<and>
            (\<forall>m. search numa_name_pat name = Some m \<and> search cpubind_pat content = None \<longrightarrow>
               numa_node r = Some (py_int (match_group m 1)))) \<and>
         (\<not> contains name ''exclusive'' \<longrightarrow>
            category_of r = shared \<and>
            (\<forall>m. search task_name_pat name = Some m \<longrightarrow>
               task_id r = Some (py_int (match_group m 1)))) \<and>
         (\<forall>ds rest. name = ''exclusive_numa'' @ ds @ rest \<and> int_literal ds \<and> stops Digit rest \<and>
            search cpubind_pat content = None \<longrightarrow>
              category_of r = exclusive \<and> numa_node r = Some (py_int ds)) \<and>
         (\<forall>ds rest. name = ''shared_task'' @ ds @ rest \<and> int_literal ds \<and> stops Digit rest \<and>
            \<not> contains name ''exclusive'' \<longrightarrow>
              category_of r = shared \<and> task_id r = Some (py_int ds)) \<and>
         (name = ''exclusive_numa3.log'' \<and> search cpubind_pat content = None \<longrightarrow>
            category_of r = exclusive \<and> numa_node r = Some 3) \<and>
         (name = ''shared_task12.log'' \<longrightarrow> category_of r = shared \<and> task_id r = Some 12)"
proof -
  note f = extract_record_name_fields[OF assms] name_fields_simps
  have n3: "search numa_name_pat ''exclusive_numa3.log'' = Some [''3'']"
    by (simp add: pattern_defs)
  have t12: "search task_name_pat ''shared_task12.log'' = Some [''12'']"
    by (simp add: pattern_defs)
  have i3: "py_int (match_group [''3''] 1) = 3" and i12: "py_int (match_group [''12''] 1) = 12"
    by (simp_all add: number_defs match_group_def)
  have c1: "contains ''exclusive_numa3.log'' ''exclusive''" by simp
  have c2: "\<not> contains ''shared_task12.log'' ''exclusive''" by simp
  have A1: "category_of r = exclusive" if "contains name ''exclusive''"
    using that by (simp add: f)
  have A2: "numa_node r = Some (py_int (match_group m 1))"
    if "contains name ''exclusive''" "search numa_name_pat name = Some m"
      "search cpubind_pat content = None" for m
    using that by (simp add: f)
  have B1: "category_of r = shared" if "\<not> contains name ''exclusive''"
    using that by (simp add: f)
  have B2: "task_id r = Some (py_int (match_group m 1))"
    if "\<not> contains name ''exclusive''" "search task_name_pat name = Some m" for m
    using that by (simp add: f)
  have A: "contains name ''exclusive'' \<longrightarrow>
            category_of r = exclusive \<and>
            (\<forall>m. search numa_name_pat name = Some m \<and> search cpubind_pat content = None \<longrightarrow>
               numa_node r = Some (py_int (match_group m 1)))"
    by (simp add: f)
  have B: "\<not> contains name ''exclusive'' \<longrightarrow>
            category_of r = shared \<and>
            (\<forall>m. search task_name_pat name = Some m \<longrightarrow>
               task_id r = Some (py_int (match_group m 1)))"
    by (simp add: f)
  have C: "name = ''exclusive_numa3.log'' \<and> search cpubind_pat content = None \<longrightarrow>
            category_of r = exclusive \<and> numa_node r = Some 3"
  proof (intro impI, elim conjE)
    assume n: "name = ''exclusive_numa3.log''" and cp: "search cpubind_pat content = None"
    have c: "contains name ''exclusive''" unfolding n by (rule c1)
    have "search numa_name_pat name = Some [''3'']" unfolding n by (rule n3)
    from A2[OF c this cp] have "numa_node r = Some 3" unfolding i3 .
    with A1[OF c] show "category_of r = exclusive \<and> numa_node r = Some 3" by (intro conjI)
  qed
  have D: "name = ''shared_task12.log'' \<longrightarrow> category_of r = shared \<and> task_id r = Some 12"
  proof (intro impI)
    assume n: "name = ''shared_task12.log''"
    have c: "\<not> contains name ''exclusive''" unfolding n by (rule c2)
    have "search task_name_pat name = Some [''12'']" unfolding n by (rule t12)
    from B2[OF c this] have "task_id r = Some 12" unfolding i12 .
    with B1[OF c] show "category_of r = shared \<and> task_id r = Some 12" by (intro conjI)
  qed
  have E: "\<forall>ds rest. name = ''exclusive_numa'' @ ds @ rest \<and> int_literal ds \<and> stops Digit rest \<and>
            search cpubind_pat content = None \<longrightarrow>
              category_of r = exclusive \<and> numa_node r = Some (py_int ds)"
  proof (intro allI impI, elim conjE)
    fix ds rest
    assume n: "name = ''exclusive_numa'' @ ds @ rest" and i: "int_literal ds" "stops Digit rest"
      and cp: "search cpubind_pat content = None"
    have c: "contains name ''exclusive''" unfolding n by simp
    have "search numa_name_pat name = Some [ds]"
      unfolding n numa_name_pat_def using i by (intro search_name_digits) simp_all
    from A2[OF c this cp] have "numa_node r = Some (py_int ds)" by (simp add: match_group_def)
    with A1[OF c] show "category_of r = exclusive \<and> numa_node r = Some (py_int ds)" by (intro conjI)
  qed
  have F: "\<forall>ds rest. name = ''shared_task'' @ ds @ rest \<and> int_literal ds \<and> stops Digit rest \<and>
            \<not> contains name ''exclusive'' \<longrightarrow>
              category_of r = shared \<and> task_id r = Some (py_int ds)"
  proof (intro allI impI, elim conjE)
    fix ds rest
    assume n: "name = ''shared_task'' @ ds @ rest" and i: "int_literal ds" "stops Digit rest"
      and c: "\<not> contains name ''exclusive''"
    have "search task_name_pat name = Some [ds]"
      unfolding n task_name_pat_def using i by (intro search_name_digits) simp_all
    from B2[OF c this] have "task_id r = Some (py_int ds)" by (simp add: match_group_def)
    with B1[OF c] show "category_of r = shared \<and> task_id r = Some (py_int ds)" by (intro conjI)
  qed
  from A B E F C D show ?thesis by (intro conjI)
qed

theorem filename_fields_witness:
  "extract_record ''exclusive_numa3.log'' ''GROMACS log'' =
     Inr \<lparr>file_name = ''exclusive_numa3.log'', category_of = exclusive, numa_node = Some 3,
          task_id = None, gpu_id = None, performance_ns_day = None, wall_time_s = None,
          core_time_s = None\<rparr> \<and>
   contains ''exclusive_numa3.log'' ''exclusive'' \<and>
   search numa_name_pat ''exclusive_numa3.log'' = Some [''3''] \<and>
   search cpubind_pat ''GROMACS log'' = None \<and>
   int_literal ''3'' \<and> stops Digit ''.log'' \<and> py_int ''3'' = 3 \<and>
   int_literal ''12'' \<and> py_int ''12'' = 12 \<and>
   extract_record ''shared_task12.log'' ''GROMACS log'' =
     Inr \<lparr>file_name = ''shared_task12.log'', category_of = shared, numa_node = None,
          task_id = Some 12, gpu_id = None, performance_ns_day = None, wall_time_s = None,
          core_time_s = None\<rparr> \<and>
   \<not> contains ''shared_task12.log'' ''exclusive'' \<and>
   search task_name_pat ''shared_task12.log'' = Some [''12'']"
proof -
  have e1: "extract_record ''exclusive_numa3.log'' ''GROMACS log'' =
     Inr \<lparr>file_name = ''exclusive_numa3.log'', category_of = exclusive, numa_node = Some 3,
          task_id = None, gpu_id = None, performance_ns_day = None, wall_time_s = None,
          core_time_s = None\<rparr>"
    by (simp add: extract_defs pattern_defs number_defs)
  have e2: "extract_record ''shared_task12.log'' ''GROMACS log'' =
     Inr \<lparr>file_name = ''shared_task12.log'', category_of = shared, numa_node = None,
          task_id = Some 12, gpu_id = None, performance_ns_day = None, wall_time_s = None,
          core_time_s = None\<rparr>"
    by (simp add: extract_defs pattern_defs number_defs)
  have s: "search numa_name_pat ''exclusive_numa3.log'' = Some [''3'']"
    "search cpubind_pat ''GROMACS log'' = None"
    "search task_name_pat ''shared_task12.log'' = Some [''12'']"
    by (simp_all add: pattern_defs)
  have c: "contains ''exclusive_numa3.log'' ''exclusive''" "\<not> contains ''shared_task12.log'' ''exclusive''"
    by simp_all
  have i: "int_literal ''3''" "stops Digit ''.log''" "py_int ''3'' = 3"
    "int_literal ''12''" "py_int ''12'' = 12"
    by (simp_all add: int_literal_def stops_def is_digit_def number_defs)
  note filename_fields[OF e1] filename_fields[OF e2]
  with e1 e2 s c i show ?thesis by (intro conjI)
qed




text \<open>
  Claim C6.  \<^verbatim>\<open>parse_all_results\<close> returns for every directory (the function is total).
  For every entry that matches one of the two patterns and fails to parse, the line
  \<^verbatim>\<open>Error parsing <name>: <message>\<close> is printed; the records returned are those of the
  directory without the entries that fail, one for each visited entry that parses; and a
  directory of one file that parses and one that cannot be read, both matching a pattern,
  gives exactly the one record, with the diagnostic for the other file.
\<close>

theorem failures_are_skipped:
  "(\<forall>e\<in>set dir. \<forall>err.
      (glob_match ''exclusive_numa*.log'' (fst e) \<or> glob_match ''shared_task*.log'' (fst e)) \<and>
      parse_gromacs_log e = Inl err \<longrightarrow>
        ''Error parsing '' @ fst e @ '': '' @ error_text err \<in> set (snd (parse_all_results dir))) \<and>
   fst (parse_all_results dir) = fst (parse_all_results (filter parses dir)) \<and>
   length (fst (parse_all_results dir)) = length (filter parses (collected dir)) \<and>
   (\<forall>n1 c r n2 err.
      (dir = [(n1, Text c), (n2, Unreadable err)] \<or> dir = [(n2, Unreadable err), (n1, Text c)]) \<and>
      extract_record n1 c = Inr r \<and>
      (glob_match ''exclusive_numa*.log'' n1 \<or> glob_match ''shared_task*.log'' n1) \<and>
      (glob_match ''exclusive_numa*.log'' n2 \<or> glob_match ''shared_task*.log'' n2) \<longrightarrow>
        fst (parse_all_results dir) = [r] \<and>
        ''Error parsing '' @ n2 @ '': '' @ error_text err \<in> set (snd (parse_all_results dir)))"
proof (intro conjI ballI allI impI)
  fix e err
  assume e: "e \<in> set dir"
    and h: "(glob_match ''exclusive_numa*.log'' (fst e) \<or> glob_match ''shared_task*.log'' (fst e)) \<and>
      parse_gromacs_log e = Inl err"
  from e h have "e \<in> set (collected dir)" by (simp add: set_collected)
  moreover from h have "report_line e = ''Error parsing '' @ fst e @ '': '' @ error_text err"
    by (simp add: report_line_def)
  ultimately show "''Error parsing '' @ fst e @ '': '' @ error_text err \<in> set (snd (parse_all_results dir))"
    using report_line_printed by metis
next
  show skip: "fst (parse_all_results dir) = fst (parse_all_results (filter parses dir))"
    by (simp add: parse_all_results_eq collected_filter records_of_filter_parses)
  show "length (fst (parse_all_results dir)) = length (filter parses (collected dir))"
    by (simp add: parse_all_results_eq records_of_map)
  fix n1 c r n2 err
  assume h: "(dir = [(n1, Text c), (n2, Unreadable err)] \<or> dir = [(n2, Unreadable err), (n1, Text c)]) \<and>
      extract_record n1 c = Inr r \<and>
      (glob_match ''exclusive_numa*.log'' n1 \<or> glob_match ''shared_task*.log'' n1) \<and>
      (glob_match ''exclusive_numa*.log'' n2 \<or> glob_match ''shared_task*.log'' n2)"
  then have good: "parse_gromacs_log (n1, Text c) = Inr r"
    and bad: "parse_gromacs_log (n2, Unreadable err) = Inl err"
    by (simp_all add: parse_gromacs_log_def and_then_def)
  then have "parses (n1, Text c)" "\<not> parses (n2, Unreadable err)" by (simp_all add: parses_def)
  with h have "filter parses dir = [(n1, Text c)]" by (elim conjE disjE) simp_all
  with skip have "fst (parse_all_results dir) = fst (parse_all_results [(n1, Text c)])" by simp
  also have "\<dots> = [r]"
    using h good by (simp add: parse_all_results_eq collected_singleton records_of_simps)
  finally show "fst (parse_all_results dir) = [r]" .
  from h have "(n2, Unreadable err) \<in> set (collected dir)"
    unfolding set_collected by (elim conjE disjE) simp_all
  moreover from bad have "report_line (n2, Unreadable err) = ''Error parsing '' @ n2 @ '': '' @ error_text err"
    by (simp add: report_line_def)
  ultimately show "''Error parsing '' @ n2 @ '': '' @ error_text err \<in> set (snd (parse_all_results dir))"
    using report_line_printed by metis
qed

text \<open>
  The theorem at a directory listing an undecodable \<^verbatim>\<open>shared_task1.log\<close> before a good
  \<^verbatim>\<open>exclusive_numa0.log\<close>.
\<close>

theorem failures_are_skipped_witness:
  "glob_match ''exclusive_numa*.log'' ''exclusive_numa0.log'' \<and>
   glob_match ''shared_task*.log'' ''shared_task1.log'' \<and>
   extract_record ''exclusive_numa0.log'' ''Performance: 12.5 ns/day'' =
     Inr \<lparr>file_name = ''exclusive_numa0.log'', category_of = exclusive, numa_node = Some 0,
          task_id = None, gpu_id = None, performance_ns_day = Some (125 / 10),
          wall_time_s = None, core_time_s = None\<rparr> \<and>
   parse_all_results
     [(''shared_task1.log'', Unreadable (UnicodeDecodeError ''invalid start byte'')),
      (''exclusive_numa0.log'', Text ''Performance: 12.5 ns/day'')] =
     ([\<lparr>file_name = ''exclusive_numa0.log'', category_of = exclusive, numa_node = Some 0,
          task_id = None, gpu_id = None, performance_ns_day = Some (125 / 10),
          wall_time_s = None, core_time_s = None\<rparr>],
      [''Parsed: exclusive_numa0.log'', ''Error parsing shared_task1.log: invalid start byte''])"
proof -
  let ?bad = "(''shared_task1.log'', Unreadable (UnicodeDecodeError ''invalid start byte''))"
  let ?good = "(''exclusive_numa0.log'', Text ''Performance: 12.5 ns/day'')"
  let ?r = "\<lparr>file_name = ''exclusive_numa0.log'', category_of = exclusive, numa_node = Some 0,
          task_id = None, gpu_id = None, performance_ns_day = Some (125 / 10),
          wall_time_s = None, core_time_s = None\<rparr>"
  have g: "glob_match ''exclusive_numa*.log'' ''exclusive_numa0.log''"
    "glob_match ''shared_task*.log'' ''shared_task1.log''"
    by simp_all
  have e: "extract_record ''exclusive_numa0.log'' ''Performance: 12.5 ns/day'' = Inr ?r"
    by (simp add: extract_defs pattern_defs number_defs)
  have out: "snd (parse_all_results [?bad, ?good]) =
      [''Parsed: exclusive_numa0.log'', ''Error parsing shared_task1.log: invalid start byte'']"
    by (simp add: collect_defs e and_then_def)
  from failures_are_skipped[of "[?bad, ?good]"] g e
  have "fst (parse_all_results [?bad, ?good]) = [?r]" by blast
  with out have "parse_all_results [?bad, ?good] =
      ([?r], [''Parsed: exclusive_numa0.log'', ''Error parsing shared_task1.log: invalid start byte''])"
    by (simp add: prod_eq_iff)
  with g e show ?thesis by (intro conjI)
qed

text \<open>
  Claim C7.  The records returned by \<^verbatim>\<open>parse_all_results\<close> are those of the files matching
  \<^verbatim>\<open>exclusive_numa*.log\<close> followed by those of the files matching \<^verbatim>\<open>shared_task*.log\<close>;
  within each pattern they are sorted by file name and are the records of exactly the
  matching files that parse; and the result does not depend on the order in which the
  directory lists its entries.
\<close>

theorem results_in_pattern_then_name_order:
  "fst (parse_all_results dir) =
     records_of (glob_sorted dir ''exclusive_numa*.log'') @
     records_of (glob_sorted dir ''shared_task*.log'') \<and>
   (\<forall>pat. sorted (map file_name (records_of (glob_sorted dir pat))) \<and>
      set (map file_name (records_of (glob_sorted dir pat))) =
        fst ` {e \<in> set dir. glob_match pat (fst e) \<and> parses e}) \<and>
   (\<forall>dir'. set dir' = set dir \<and> distinct (map fst dir) \<and> distinct (map fst dir') \<longrightarrow>
      parse_all_results dir' = parse_all_results dir)"
proof (intro conjI allI impI)
  show "fst (parse_all_results dir) =
     records_of (glob_sorted dir ''exclusive_numa*.log'') @
     records_of (glob_sorted dir ''shared_task*.log'')"
    by (simp add: parse_all_results_eq collected_def records_of_append)
  show "sorted (map file_name (records_of (glob_sorted dir pat)))" for pat
    unfolding file_names_records_of using sorted_glob_sorted[of dir pat]
    by (rule sorted_filter)
  show "set (map file_name (records_of (glob_sorted dir pat))) =
        fst ` {e \<in> set dir. glob_match pat (fst e) \<and> parses e}" for pat
    unfolding file_names_records_of by (auto simp: set_glob_sorted)
  show "parse_all_results dir' = parse_all_results dir"
    if "set dir' = set dir \<and> distinct (map fst dir) \<and> distinct (map fst dir')" for dir'
  proof -
    from that have "glob_sorted dir' pat = glob_sorted dir pat" for pat
      by (intro glob_sorted_determined) simp_all
    then show ?thesis by (simp add: parse_all_results_eq collected_def)
  qed
qed

text \<open>
  The theorem at a directory that lists a shared log first and \<^verbatim>\<open>exclusive_numa2.log\<close>
  before \<^verbatim>\<open>exclusive_numa10.log\<close>: names compare as strings, so 10 comes before 2.
\<close>

theorem results_in_pattern_then_name_order_witness:
  "map file_name (fst (parse_all_results
     [(''shared_task1.log'', Text ''7.5 ns/day''), (''exclusive_numa2.log'', Text ''cpubind: 1''),
      (''exclusive_numa10.log'', Text ''cpubind: 0'')])) =
     [''exclusive_numa10.log'', ''exclusive_numa2.log'', ''shared_task1.log''] \<and>
   parse_all_results
     [(''exclusive_numa10.log'', Text ''cpubind: 0''), (''exclusive_numa2.log'', Text ''cpubind: 1''),
      (''shared_task1.log'', Text ''7.5 ns/day'')] =
   parse_all_results
     [(''shared_task1.log'', Text ''7.5 ns/day''), (''exclusive_numa2.log'', Text ''cpubind: 1''),
      (''exclusive_numa10.log'', Text ''cpubind: 0'')]"
proof -
  let ?d = "[(''shared_task1.log'', Text ''7.5 ns/day''), (''exclusive_numa2.log'', Text ''cpubind: 1''),
      (''exclusive_numa10.log'', Text ''cpubind: 0'')]"
  let ?d' = "[(''exclusive_numa10.log'', Text ''cpubind: 0''), (''exclusive_numa2.log'', Text ''cpubind: 1''),
      (''shared_task1.log'', Text ''7.5 ns/day'')]"
  have names: "map file_name (fst (parse_all_results ?d)) =
     [''exclusive_numa10.log'', ''exclusive_numa2.log'', ''shared_task1.log'']"
    by (simp add: collect_defs extract_defs pattern_defs number_defs)
  have "set ?d' = set ?d \<and> distinct (map fst ?d) \<and> distinct (map fst ?d')" by auto
  with results_in_pattern_then_name_order[of ?d]
  have "parse_all_results ?d' = parse_all_results ?d" by blast
  with names show ?thesis by (intro conjI)
qed




text \<open>
  Claim C9.  For a file whose name does not contain \<^verbatim>\<open>exclusive\<close> and has
  \<^verbatim>\<open>shared_task\<close> followed by a digit, and a text that has \<^verbatim>\<open>cpubind:\<close> followed,
  after white space or none, by a digit, the record the extractor returns is of the shared
  category and has both \<open>task_id\<close>, from the name, and \<open>numa_node\<close>, from the text.
\<close>

theorem shared_record_has_task_and_numa:
  assumes "\<not> contains name ''exclusive''" and "has_task_digits name"
    and "has_cpubind content" and "extract_record name content = Inr r"
  shows "category_of r = shared \<and>
         (\<exists>m. search task_name_pat name = Some m \<and> task_id r = Some (py_int (match_group m 1))) \<and>
         (\<exists>m. search cpubind_pat content = Some m \<and> numa_node r = Some (py_int (match_group m 1)))"
proof -
  note f = extract_record_name_fields[OF assms(4)] name_fields_simps
  from assms(2) obtain m where m: "search task_name_pat name = Some m"
    using occurs_search occurs_task_name_pat by blast
  from assms(3) obtain k where k: "search cpubind_pat content = Some k"
    using occurs_search occurs_cpubind_pat by blast
  have "category_of r = shared" using assms(1) by (simp add: f)
  moreover have "task_id r = Some (py_int (match_group m 1))" using assms(1) m by (simp add: f)
  moreover have "numa_node r = Some (py_int (match_group k 1))" using k by (simp add: f)
  ultimately show ?thesis using m k by blast
qed

text \<open>The theorem at \<^verbatim>\<open>shared_task12.log\<close> with the text \<^verbatim>\<open>cpubind: 1\<close>.\<close>

theorem shared_record_has_task_and_numa_witness:
  "\<not> contains ''shared_task12.log'' ''exclusive'' \<and>
   has_task_digits ''shared_task12.log'' \<and>
   has_cpubind ''cpubind: 1'' \<and>
   extract_record ''shared_task12.log'' ''cpubind: 1'' =
     Inr \<lparr>file_name = ''shared_task12.log'', category_of = shared, numa_node = Some 1,
          task_id = Some 12, gpu_id = None, performance_ns_day = None,
          wall_time_s = None, core_time_s = None\<rparr>"
proof -
  have e: "extract_record ''shared_task12.log'' ''cpubind: 1'' =
     Inr \<lparr>file_name = ''shared_task12.log'', category_of = shared, numa_node = Some 1,
          task_id = Some 12, gpu_id = None, performance_ns_day = None,
          wall_time_s = None, core_time_s = None\<rparr>"
    by (simp add: extract_defs pattern_defs number_defs)
  have c: "\<not> contains ''shared_task12.log'' ''exclusive''" by simp
  have o: "has_task_digits ''shared_task12.log''" "has_cpubind ''cpubind: 1''"
    unfolding occurs_task_name_pat[symmetric] occurs_cpubind_pat[symmetric] occurs_iff_search
    by (simp_all add: pattern_defs)
  note shared_record_has_task_and_numa[OF c o e]
  with c o e show ?thesis by (intro conjI)
qed

text \<open>
  Claim C10.  For a record that the extractor returns: when the text has no timing line,
  that is nowhere \<^verbatim>\<open>Time:\<close> followed by three numbers, each after white space (line
  breaks are white space too), \<open>core_time_s\<close> is unset, and \<open>wall_time_s\<close> is unset too
  unless the text has the \<^verbatim>\<open>Finished mdrun\<close> pair of lines; and \<open>core_time_s\<close> is
  set only when the text has a timing line, from the first match of the three-number
  pattern.
\<close>

theorem timing_all_or_nothing:
  assumes "extract_record name content = Inr r"
  shows "(\<not> has_timing_line content \<longrightarrow>
            core_time_s r = None \<and> (\<not> has_finished_pair content \<longrightarrow> wall_time_s r = None)) \<and>
         (core_time_s r \<noteq> None \<longrightarrow>
            has_timing_line content \<and>
            (\<exists>m. search time_pat content = Some m \<and> leftmost_match time_pat content m \<and>
                 core_time_s r = Some (float_value (match_group m 1))))"
proof (intro conjI impI)
  note w = extract_record_times[OF assms]
  {
    assume n: "\<not> has_timing_line content"
    then have t: "search time_pat content = None" by (simp add: search_None_iff occurs_time_pat)
    show "core_time_s r = None" using w(2) t by simp
    assume "\<not> has_finished_pair content"
    then have "search finished_pat content = None" by (simp add: search_None_iff occurs_finished_pat)
    then show "wall_time_s r = None" using w(1) t by simp
  }
  {
    assume "core_time_s r \<noteq> None"
    with w(2) obtain m where m: "search time_pat content = Some m"
      by (cases "search time_pat content") simp_all
    then show "has_timing_line content"
      by (simp add: occurs_time_pat[symmetric] occurs_iff_search)
    from w(2) m have "core_time_s r = Some (float_value (match_group m 1))" by simp
    then show "\<exists>m. search time_pat content = Some m \<and> leftmost_match time_pat content m \<and>
                 core_time_s r = Some (float_value (match_group m 1))"
      using m search_leftmost[OF m] by blast
  }
qed

text \<open>
  The theorem at \<^verbatim>\<open>Time:  10.0  20.0\<close>, where both times stay unset, and at
  \<^verbatim>\<open>Time:  10.0  20.0  5.0\<close>, where the core time is set.
\<close>

theorem timing_all_or_nothing_witness:
  "\<not> has_timing_line ''Time:  10.0  20.0'' \<and> \<not> has_finished_pair ''Time:  10.0  20.0'' \<and>
   extract_record ''exclusive_numa0.log'' ''Time:  10.0  20.0'' =
     Inr \<lparr>file_name = ''exclusive_numa0.log'', category_of = exclusive, numa_node = Some 0,
          task_id = None, gpu_id = None, performance_ns_day = None,
          wall_time_s = None, core_time_s = None\<rparr> \<and>
   extract_record ''exclusive_numa0.log'' ''Time:  10.0  20.0  5.0'' =
     Inr \<lparr>file_name = ''exclusive_numa0.log'', category_of = exclusive, numa_node = Some 0,
          task_id = None, gpu_id = None, performance_ns_day = None,
          wall_time_s = Some 20, core_time_s = Some 10\<rparr> \<and>
   has_timing_line ''Time:  10.0  20.0  5.0''"
proof -
  have e1: "extract_record ''exclusive_numa0.log'' ''Time:  10.0  20.0'' =
     Inr \<lparr>file_name = ''exclusive_numa0.log'', category_of = exclusive, numa_node = Some 0,
          task_id = None, gpu_id = None, performance_ns_day = None,
          wall_time_s = None, core_time_s = None\<rparr>"
    by (simp add: extract_defs pattern_defs number_defs)
  have e2: "extract_record ''exclusive_numa0.log'' ''Time:  10.0  20.0  5.0'' =
     Inr \<lparr>file_name = ''exclusive_numa0.log'', category_of = exclusive, numa_node = Some 0,
          task_id = None, gpu_id = None, performance_ns_day = None,
          wall_time_s = Some 20, core_time_s = Some 10\<rparr>"
    by (simp add: extract_defs pattern_defs number_defs)
  have n: "\<not> has_timing_line ''Time:  10.0  20.0''" "\<not> has_finished_pair ''Time:  10.0  20.0''"
    unfolding occurs_time_pat[symmetric] occurs_finished_pat[symmetric]
    by (rule iffD1[OF search_None_iff], simp add: pattern_defs)+
  from timing_all_or_nothing[OF e2] have "has_timing_line ''Time:  10.0  20.0  5.0''"
    by simp
  moreover note timing_all_or_nothing[OF e1]
  ultimately show ?thesis using n e1 e2 by (intro conjI)
qed

end
